theory Spec2Isabelle
  imports Main
begin

section \<open>Cards and the deck (card.ts)\<close>

datatype Suit = HEARTS | DIAMONDS | CLUBS | SPADES

datatype Rank = TWO | THREE | FOUR | FIVE | SIX | SEVEN | EIGHT | NINE | TEN
  | JACK | QUEEN | KING | ACE

fun Suit_str :: "Suit \<Rightarrow> string" where
  "Suit_str HEARTS = ''h''"
| "Suit_str DIAMONDS = ''d''"
| "Suit_str CLUBS = ''c''"
| "Suit_str SPADES = ''s''"

fun Rank_str :: "Rank \<Rightarrow> string" where
  "Rank_str TWO = ''2''"
| "Rank_str THREE = ''3''"
| "Rank_str FOUR = ''4''"
| "Rank_str FIVE = ''5''"
| "Rank_str SIX = ''6''"
| "Rank_str SEVEN = ''7''"
| "Rank_str EIGHT = ''8''"
| "Rank_str NINE = ''9''"
| "Rank_str TEN = ''T''"
| "Rank_str JACK = ''J''"
| "Rank_str QUEEN = ''Q''"
| "Rank_str KING = ''K''"
| "Rank_str ACE = ''A''"

record Card =
  rank :: Rank
  suit :: Suit

definition Card_toString :: "Card \<Rightarrow> string" where
  "Card_toString c = Rank_str (rank c) @ Suit_str (suit c)"

text \<open>
  Everything the source throws is a value of this type: the two \<open>Error\<close>s of the engine
  (\<open>Must provide exactly 6 stack sizes\<close>, \<open>No players with chips remaining\<close>), the deck's
  \<open>Cannot deal from empty deck\<close>, and the \<open>TypeError\<close> JavaScript raises when a property of
  \<open>undefined\<close> is read (an array read out of range gives \<open>undefined\<close>).
\<close>

datatype error = InvalidStackCount | NoPlayersWithChips | EmptyDeck | TypeError

definition bindE :: "error + 'a \<Rightarrow> ('a \<Rightarrow> error + 'b) \<Rightarrow> error + 'b" where
  "bindE m f = (case m of Inl e \<Rightarrow> Inl e | Inr x \<Rightarrow> f x)"

text \<open>A \<open>for\<close> loop over a fixed range whose body may throw.\<close>

fun foldE :: "('a \<Rightarrow> 's \<Rightarrow> error + 's) \<Rightarrow> 'a list \<Rightarrow> 's \<Rightarrow> error + 's" where
  "foldE f [] s = Inr s"
| "foldE f (x # xs) s = bindE (f x s) (foldE f xs)"

text \<open>
  The deck is the array \<open>cards\<close>; \<open>pop\<close> takes the last element. \<open>Math.random\<close> is
  outside the program: the index \<open>j = floor(random() * (i + 1))\<close> drawn at loop index
  \<open>i\<close> is some number in \<open>0..i\<close>, read here from an oracle \<open>rnd\<close> and reduced
  modulo \<open>i + 1\<close>.
\<close>

type_synonym Deck = "Card list"

definition all_suits :: "Suit list" where
  "all_suits = [HEARTS, DIAMONDS, CLUBS, SPADES]"

definition all_ranks :: "Rank list" where
  "all_ranks = [TWO, THREE, FOUR, FIVE, SIX, SEVEN, EIGHT, NINE, TEN, JACK, QUEEN, KING, ACE]"

fun shuffle_loop :: "(nat \<Rightarrow> nat) \<Rightarrow> nat \<Rightarrow> Deck \<Rightarrow> Deck" where
  "shuffle_loop rnd 0 cs = cs"
| "shuffle_loop rnd (Suc i) cs =
     (let j = rnd (Suc i) mod (Suc i + 1)
      in shuffle_loop rnd i (cs[Suc i := cs ! j, j := cs ! Suc i]))"

definition shuffle :: "(nat \<Rightarrow> nat) \<Rightarrow> Deck \<Rightarrow> Deck" where
  "shuffle rnd cs = shuffle_loop rnd (length cs - 1) cs"

definition Deck_reset :: "(nat \<Rightarrow> nat) \<Rightarrow> Deck" where
  "Deck_reset rnd =
     shuffle rnd (concat (map (\<lambda>s. map (\<lambda>r. \<lparr>rank = r, suit = s\<rparr>) all_ranks) all_suits))"

definition Deck_deal :: "Deck \<Rightarrow> error + (Card \<times> Deck)" where
  "Deck_deal cs = (if cs = [] then Inl EmptyDeck else Inr (last cs, butlast cs))"

section \<open>Seats (player.ts)\<close>

text \<open>
  Chip amounts are JavaScript numbers; the engine only adds, subtracts and compares
  them, and they are modelled as unbounded integers. \<open>UNKNOWN\<close> stands for any runtime
  value outside the enum, which reaches the \<open>default\<close> branch of \<open>processAction\<close>.
\<close>

datatype PlayerAction = FOLD | CHECK | CALL | BET | RAISE | ALL_IN | UNKNOWN

record Player =
  id_player :: nat
  name :: string
  stack :: int
  holeCards :: "Card list"
  currentBet :: int
  totalBetThisHand :: int
  hasFolded :: bool
  isAllIn :: bool
  hasActed :: bool

definition Player_new :: "nat \<Rightarrow> string \<Rightarrow> int \<Rightarrow> Player" where
  "Player_new i n s =
     \<lparr>id_player = i, name = n, stack = s, holeCards = [], currentBet = 0,
      totalBetThisHand = 0, hasFolded = False, isAllIn = False, hasActed = False\<rparr>"

definition reset :: "Player \<Rightarrow> Player" where
  "reset p = p\<lparr>holeCards := [], currentBet := 0, totalBetThisHand := 0,
               hasFolded := False, isAllIn := False, hasActed := False\<rparr>"

text \<open>The mutating methods return the value of the call and the seat after it.\<close>

definition bet :: "int \<Rightarrow> Player \<Rightarrow> int \<times> Player" where
  "bet amount p =
     (let actualAmount = min amount (stack p);
          p1 = p\<lparr>stack := stack p - actualAmount,
                 currentBet := currentBet p + actualAmount,
                 totalBetThisHand := totalBetThisHand p + actualAmount,
                 hasActed := True\<rparr>;
          p2 = (if stack p1 = 0 then p1\<lparr>isAllIn := True\<rparr> else p1)
      in (actualAmount, p2))"

definition fold_player :: "Player \<Rightarrow> Player" where
  "fold_player p = p\<lparr>hasFolded := True, hasActed := True\<rparr>"

definition check :: "Player \<Rightarrow> Player" where
  "check p = p\<lparr>hasActed := True\<rparr>"

definition call :: "int \<Rightarrow> Player \<Rightarrow> int \<times> Player" where
  "call amountToCall p = (let actualAmount = min amountToCall (stack p) in bet actualAmount p)"

definition allIn :: "Player \<Rightarrow> int \<times> Player" where
  "allIn p = (let amount = stack p in (amount, snd (bet amount p)))"

definition canAct :: "Player \<Rightarrow> bool" where
  "canAct p \<longleftrightarrow> \<not> hasFolded p \<and> \<not> isAllIn p \<and> stack p > 0"

section \<open>The engine (game.ts)\<close>

datatype GamePhase = SETUP | PREFLOP | FLOP | TURN | RIVER | SHOWDOWN | FINISHED

fun GamePhase_str :: "GamePhase \<Rightarrow> string" where
  "GamePhase_str SETUP = ''setup''"
| "GamePhase_str PREFLOP = ''preflop''"
| "GamePhase_str FLOP = ''flop''"
| "GamePhase_str TURN = ''turn''"
| "GamePhase_str RIVER = ''river''"
| "GamePhase_str SHOWDOWN = ''showdown''"
| "GamePhase_str FINISHED = ''finished''"

record GameAction =
  playerId :: int
  action :: string
  amount :: "int option"
  phase :: string

record PokerGame =
  deck :: Deck
  players :: "Player list"
  communityCards :: "Card list"
  pot :: int
  currentBet :: int
  activePlayerIndex :: nat
  dealerIndex :: nat
  smallBlindIndex :: nat
  bigBlindIndex :: nat
  phase :: GamePhase
  actionLog :: "string list"
  gameActions :: "GameAction list"
  handId :: string
  isFirstAction :: bool
  initialStacks :: "int list"

definition SMALL_BLIND :: int where
  "SMALL_BLIND = 20"

definition BIG_BLIND :: int where
  "BIG_BLIND = 40"

text \<open>
  Template literals print a chip amount in decimal (what JavaScript prints for an
  integer below \<open>10^21\<close> in absolute value).
\<close>

function show_nat :: "nat \<Rightarrow> string" where
  "show_nat n =
     (if n < 10 then [''0123456789'' ! n]
      else show_nat (n div 10) @ [''0123456789'' ! (n mod 10)])"
  by pat_completeness auto
termination
  by (relation "measure (\<lambda>n. n)") auto

declare show_nat.simps [simp del]

definition show_int :: "int \<Rightarrow> string" where
  "show_int i = (if i < 0 then ''-'' @ show_nat (nat (- i)) else show_nat (nat i))"

fun join :: "string \<Rightarrow> string list \<Rightarrow> string" where
  "join sep [] = []"
| "join sep [x] = x"
| "join sep (x # y # ys) = x @ sep @ join sep (y # ys)"

text \<open>\<open>this.players[i]\<close> followed by a property access: a \<open>TypeError\<close> out of range.\<close>

definition getPlayer :: "Player list \<Rightarrow> nat \<Rightarrow> error + Player" where
  "getPlayer ps i = (if i < length ps then Inr (ps ! i) else Inl TypeError)"

definition logAction :: "string \<Rightarrow> PokerGame \<Rightarrow> PokerGame" where
  "logAction a g = g\<lparr>actionLog := actionLog g @ [a]\<rparr>"

definition initializePlayers :: "Player list" where
  "initializePlayers =
     map (\<lambda>i. Player_new i (''Player '' @ show_nat (i + 1)) 1000) [0..<6]"

text \<open>The constructor; \<open>rnd\<close> is the randomness of the first shuffle.\<close>

definition PokerGame_new :: "(nat \<Rightarrow> nat) \<Rightarrow> PokerGame" where
  "PokerGame_new rnd =
     \<lparr>deck = Deck_reset rnd, players = initializePlayers, communityCards = [], pot = 0,
      currentBet = 0, activePlayerIndex = 0, dealerIndex = 0, smallBlindIndex = 0,
      bigBlindIndex = 0, phase = SETUP, actionLog = [], gameActions = [], handId = [],
      isFirstAction = True, initialStacks = []\<rparr>"

definition setPlayerStacks :: "int list \<Rightarrow> PokerGame \<Rightarrow> error + PokerGame" where
  "setPlayerStacks stacks g =
     (if length stacks \<noteq> 6 then Inl InvalidStackCount
      else foldE (\<lambda>i g1. bindE (getPlayer (players g1) i)
                   (\<lambda>p. Inr (g1\<lparr>players := (players g1)[i := p\<lparr>stack := stacks ! i\<rparr>]\<rparr>)))
             [0..<6] (g\<lparr>initialStacks := stacks\<rparr>))"

function findNextPlayerWithChips_loop :: "Player list \<Rightarrow> nat \<Rightarrow> nat \<Rightarrow> error + (nat \<times> nat)" where
  "findNextPlayerWithChips_loop ps next attempts =
     bindE (getPlayer ps next)
       (\<lambda>p. if stack p = 0 \<and> attempts < length ps
            then findNextPlayerWithChips_loop ps ((next + 1) mod length ps) (attempts + 1)
            else Inr (next, attempts))"
  by pat_completeness auto
termination
  by (relation "measure (\<lambda>(ps, next, attempts). length ps - attempts)") auto

declare findNextPlayerWithChips_loop.simps [simp del]

definition findNextPlayerWithChips :: "nat \<Rightarrow> Player list \<Rightarrow> error + nat" where
  "findNextPlayerWithChips fromIndex ps =
     (let total = length ps
      in bindE (findNextPlayerWithChips_loop ps ((fromIndex + 1) mod total) 0)
           (\<lambda>(next, attempts).
              if attempts \<ge> total then Inl NoPlayersWithChips else Inr next))"

text \<open>
  \<open>uuidv4()\<close> and the shuffle are the two outside inputs of a new hand: the hand id
  \<open>hid\<close> and the oracle \<open>rnd\<close>.
\<close>

definition resetForNewHand :: "string \<Rightarrow> (nat \<Rightarrow> nat) \<Rightarrow> PokerGame \<Rightarrow> error + PokerGame" where
  "resetForNewHand hid rnd g =
     (let g1 = g\<lparr>handId := hid, deck := Deck_reset rnd, communityCards := [], pot := 0,
                 currentBet := 0, actionLog := [], gameActions := [], phase := SETUP,
                 isFirstAction := True, players := map reset (players g)\<rparr>
      in bindE (findNextPlayerWithChips (dealerIndex g1) (players g1)) (\<lambda>d.
         bindE (findNextPlayerWithChips d (players g1)) (\<lambda>sb.
         bindE (findNextPlayerWithChips sb (players g1)) (\<lambda>bb.
           Inr (g1\<lparr>dealerIndex := d, smallBlindIndex := sb, bigBlindIndex := bb\<rparr>)))))"

definition postBlinds :: "PokerGame \<Rightarrow> error + PokerGame" where
  "postBlinds g =
     bindE (getPlayer (players g) (smallBlindIndex g)) (\<lambda>sb.
       let (sbAmount, sb') = bet SMALL_BLIND sb;
           g1 = g\<lparr>players := (players g)[smallBlindIndex g := sb'], pot := pot g + sbAmount\<rparr>
       in bindE (getPlayer (players g1) (bigBlindIndex g1)) (\<lambda>bb.
            let (bbAmount, bb') = bet BIG_BLIND bb
            in Inr (g1\<lparr>players := (players g1)[bigBlindIndex g1 := bb'],
                       pot := pot g1 + bbAmount, currentBet := BIG_BLIND\<rparr>)))"

text \<open>The body of the inner loop of \<open>dealHoleCards\<close>, at loop index \<open>i\<close>.\<close>

definition dealHoleCards_body :: "nat \<Rightarrow> PokerGame \<Rightarrow> error + PokerGame" where
  "dealHoleCards_body i g =
     (let playerIndex = (dealerIndex g + 1 + i) mod 6
      in bindE (getPlayer (players g) playerIndex) (\<lambda>p.
         bindE (Deck_deal (deck g)) (\<lambda>(c, d).
           Inr (g\<lparr>deck := d,
                   players := (players g)[playerIndex := p\<lparr>holeCards := holeCards p @ [c]\<rparr>]\<rparr>))))"

definition dealHoleCards :: "PokerGame \<Rightarrow> error + PokerGame" where
  "dealHoleCards g = foldE (\<lambda>round. foldE dealHoleCards_body [0..<6]) [0..<2] g"

function findNextActivePlayer_loop :: "Player list \<Rightarrow> nat \<Rightarrow> nat \<Rightarrow> nat \<Rightarrow> error + nat" where
  "findNextActivePlayer_loop ps startIndex attempts active =
     (if attempts < 6
      then bindE (getPlayer ps active) (\<lambda>player.
             if canAct player then Inr active
             else let active' = (active + 1) mod 6; attempts' = attempts + 1
                  in if active' = startIndex \<and> attempts' > 0 then Inr active'
                     else findNextActivePlayer_loop ps startIndex attempts' active')
      else Inr active)"
  by pat_completeness auto
termination
  by (relation "measure (\<lambda>(ps, startIndex, attempts, active). 6 - attempts)") auto

declare findNextActivePlayer_loop.simps [simp del]

definition findNextActivePlayer :: "PokerGame \<Rightarrow> error + PokerGame" where
  "findNextActivePlayer g =
     bindE (findNextActivePlayer_loop (players g) (activePlayerIndex g) 0 (activePlayerIndex g))
       (\<lambda>a. Inr (g\<lparr>activePlayerIndex := a\<rparr>))"

definition setActivePlayer :: "PokerGame \<Rightarrow> error + PokerGame" where
  "setActivePlayer g =
     findNextActivePlayer
       (if phase g = PREFLOP then g\<lparr>activePlayerIndex := (bigBlindIndex g + 1) mod 6\<rparr>
        else g\<lparr>activePlayerIndex := (dealerIndex g + 1) mod 6\<rparr>)"

definition startNewHand :: "string \<Rightarrow> (nat \<Rightarrow> nat) \<Rightarrow> PokerGame \<Rightarrow> error + PokerGame" where
  "startNewHand hid rnd g =
     bindE (resetForNewHand hid rnd g) (\<lambda>g1.
     bindE (postBlinds g1) (\<lambda>g2.
     bindE (dealHoleCards g2) (\<lambda>g3.
     bindE (setActivePlayer (g3\<lparr>phase := PREFLOP\<rparr>)) (\<lambda>g4.
     bindE (getPlayer (players g4) (dealerIndex g4)) (\<lambda>d.
     bindE (getPlayer (players g4) (smallBlindIndex g4)) (\<lambda>sb.
     bindE (getPlayer (players g4) (bigBlindIndex g4)) (\<lambda>bb.
     bindE (getPlayer (players g4) (activePlayerIndex g4)) (\<lambda>a.
       Inr (logAction (''*** PREFLOP *** - Action to '' @ name a)
           (logAction (''Big Blind: '' @ name bb @ '' posts '' @ show_int BIG_BLIND)
           (logAction (''Small Blind: '' @ name sb @ '' posts '' @ show_int SMALL_BLIND)
           (logAction (''Dealer: '' @ name d)
           (logAction ''=== NEW HAND STARTED ==='' g4)))))))))))))"

definition moveToNextPlayer :: "PokerGame \<Rightarrow> error + PokerGame" where
  "moveToNextPlayer g =
     findNextActivePlayer (g\<lparr>activePlayerIndex := (activePlayerIndex g + 1) mod 6\<rparr>)"

definition isBettingRoundComplete :: "PokerGame \<Rightarrow> bool" where
  "isBettingRoundComplete g =
     (let activePlayers = filter (\<lambda>p. \<not> hasFolded p) (players g)
      in if length activePlayers \<le> 1 then True
         else let playersWithChips = filter (\<lambda>p. stack p > 0 \<and> \<not> isAllIn p) activePlayers
              in if length playersWithChips \<le> 1 then True
                 else let allActed = list_all (\<lambda>p. hasActed p) activePlayers;
                          allBetsMatched =
                            list_all (\<lambda>p. Player.currentBet p = currentBet g \<or> isAllIn p \<or> stack p = 0)
                              activePlayers
                      in allActed \<and> allBetsMatched)"

text \<open>
  \<open>activePlayers[0]\<close> is the same object as the first non-folded element of
  \<open>players\<close>; \<open>winner.stack += pot\<close> therefore updates that element.
\<close>

fun update_first :: "('a \<Rightarrow> bool) \<Rightarrow> ('a \<Rightarrow> 'a) \<Rightarrow> 'a list \<Rightarrow> 'a list" where
  "update_first P f [] = []"
| "update_first P f (x # xs) = (if P x then f x # xs else x # update_first P f xs)"

definition processHandCompletion :: "PokerGame \<Rightarrow> error + PokerGame" where
  "processHandCompletion g =
     (let activePlayers = filter (\<lambda>p. \<not> hasFolded p) (players g)
      in bindE
           (if length activePlayers = 1
            then (let winner = hd activePlayers
                  in Inr (logAction (name winner @ '' wins '' @ show_int (pot g) @ '' (no showdown needed)'')
                       (g\<lparr>players := update_first (\<lambda>p. \<not> hasFolded p)
                                        (\<lambda>p. p\<lparr>stack := stack p + pot g\<rparr>) (players g)\<rparr>)))
            else (case activePlayers of
                    [] \<Rightarrow> Inl TypeError
                  | winner # _ \<Rightarrow>
                      Inr (logAction (name winner @ '' wins '' @ show_int (pot g) @ '' with best hand'')
                        (g\<lparr>players := update_first (\<lambda>p. \<not> hasFolded p)
                                         (\<lambda>p. p\<lparr>stack := stack p + pot g\<rparr>) (players g)\<rparr>))))
           (\<lambda>g1. Inr (logAction ''*** HAND COMPLETE ***'' (g1\<lparr>phase := FINISHED\<rparr>))))"

definition processShowdown :: "PokerGame \<Rightarrow> error + PokerGame" where
  "processShowdown g = processHandCompletion (logAction ''*** SHOWDOWN ***'' g)"

text \<open>\<open>this.communityCards.push(this.deck.deal())\<close>.\<close>

definition dealCommunity :: "PokerGame \<Rightarrow> error + PokerGame" where
  "dealCommunity g =
     bindE (Deck_deal (deck g)) (\<lambda>(c, d).
       Inr (g\<lparr>deck := d, communityCards := communityCards g @ [c]\<rparr>))"

text \<open>\<open>this.deck.deal()\<close> with the card thrown away.\<close>

definition burnCard :: "PokerGame \<Rightarrow> error + PokerGame" where
  "burnCard g = bindE (Deck_deal (deck g)) (\<lambda>(c, d). Inr (g\<lparr>deck := d\<rparr>))"

definition dealFlop :: "PokerGame \<Rightarrow> error + PokerGame" where
  "dealFlop g =
     bindE (burnCard g) (\<lambda>g1.
     bindE (foldE (\<lambda>i. dealCommunity) [0..<3] g1) (\<lambda>g2.
       let flopCards = join '' '' (map Card_toString (take 3 (communityCards g2)));
           g3 = logAction (''*** FLOP *** ['' @ flopCards @ '']'') g2
       in Inr (g3\<lparr>gameActions := gameActions g3 @
                 [\<lparr>playerId = - 1,
                   action = join [] (map Card_toString (take 3 (communityCards g3))),
                   amount = None, phase = ''flop''\<rparr>]\<rparr>)))"

definition dealTurn :: "PokerGame \<Rightarrow> error + PokerGame" where
  "dealTurn g =
     bindE (burnCard g) (\<lambda>g1.
     bindE (dealCommunity g1) (\<lambda>g2.
       if 3 < length (communityCards g2)
       then (let turnCard = Card_toString (communityCards g2 ! 3);
                 g3 = logAction (''*** TURN *** ['' @ turnCard @ '']'') g2
             in Inr (g3\<lparr>gameActions := gameActions g3 @
                       [\<lparr>playerId = - 1, action = turnCard, amount = None, phase = ''turn''\<rparr>]\<rparr>))
       else Inl TypeError))"

definition dealRiver :: "PokerGame \<Rightarrow> error + PokerGame" where
  "dealRiver g =
     bindE (burnCard g) (\<lambda>g1.
     bindE (dealCommunity g1) (\<lambda>g2.
       if 4 < length (communityCards g2)
       then (let riverCard = Card_toString (communityCards g2 ! 4);
                 g3 = logAction (''*** RIVER *** ['' @ riverCard @ '']'') g2
             in Inr (g3\<lparr>gameActions := gameActions g3 @
                       [\<lparr>playerId = - 1, action = riverCard, amount = None, phase = ''river''\<rparr>]\<rparr>))
       else Inl TypeError))"

text \<open>The two statements of \<open>advanceToNextPhase\<close> after its \<open>switch\<close>.\<close>

definition advanceToNextPhase_tail :: "PokerGame \<Rightarrow> error + PokerGame" where
  "advanceToNextPhase_tail g =
     bindE (setActivePlayer g) (\<lambda>g1.
     bindE (getPlayer (players g1) (activePlayerIndex g1)) (\<lambda>p.
       Inr (logAction (''Action to '' @ name p) g1)))"

definition advanceToNextPhase :: "PokerGame \<Rightarrow> error + PokerGame" where
  "advanceToNextPhase g =
     (let g1 = g\<lparr>players := map (\<lambda>p. p\<lparr>hasActed := False, Player.currentBet := 0\<rparr>) (players g),
                 currentBet := 0\<rparr>;
          activePlayers = filter (\<lambda>p. \<not> hasFolded p) (players g1)
      in if length activePlayers \<le> 1 then processHandCompletion (g1\<lparr>phase := FINISHED\<rparr>)
         else (case phase g1 of
                 PREFLOP \<Rightarrow> bindE (dealFlop g1) (\<lambda>g2. advanceToNextPhase_tail (g2\<lparr>phase := FLOP\<rparr>))
               | FLOP \<Rightarrow> bindE (dealTurn g1) (\<lambda>g2. advanceToNextPhase_tail (g2\<lparr>phase := TURN\<rparr>))
               | TURN \<Rightarrow> bindE (dealRiver g1) (\<lambda>g2. advanceToNextPhase_tail (g2\<lparr>phase := RIVER\<rparr>))
               | RIVER \<Rightarrow> processShowdown (g1\<lparr>phase := SHOWDOWN\<rparr>)
               | _ \<Rightarrow> advanceToNextPhase_tail g1))"

text \<open>
  The statements of \<open>processAction\<close> after its \<open>switch\<close>, reached by every accepted
  action: \<open>p\<close> is the acting seat after the action (the source mutates it in place),
  \<open>actionAmount\<close>, \<open>actionDescription\<close> and \<open>shortAction\<close> the three locals.
\<close>

definition processAction_accept ::
    "PokerGame \<Rightarrow> Player \<Rightarrow> int \<Rightarrow> string \<Rightarrow> string \<Rightarrow> error + (bool \<times> PokerGame)" where
  "processAction_accept g p actionAmount actionDescription shortAction =
     (let g1 = g\<lparr>players := (players g)[activePlayerIndex g := p]\<rparr>;
          g2 = logAction actionDescription g1;
          g3 = g2\<lparr>gameActions := gameActions g2 @
                 [\<lparr>playerId = int (activePlayerIndex g2), action = shortAction,
                   amount = Some actionAmount, phase = GamePhase_str (phase g2)\<rparr>]\<rparr>
      in bindE (moveToNextPlayer g3) (\<lambda>g4.
           if isBettingRoundComplete g4
           then bindE (advanceToNextPhase g4) (\<lambda>g5. Inr (True, g5))
           else Inr (True, g4)))"

text \<open>
  \<open>amt\<close> is the optional argument \<open>amount\<close>; \<open>!amount\<close> holds when it is missing or
  \<open>0\<close>. The result is the returned boolean with the engine afterwards.
\<close>

definition processAction :: "PlayerAction \<Rightarrow> int option \<Rightarrow> PokerGame \<Rightarrow> error + (bool \<times> PokerGame)" where
  "processAction act amt g =
     (if \<not> activePlayerIndex g < length (players g) then Inr (False, g)
      else let player = players g ! activePlayerIndex g
      in if \<not> canAct player then Inr (False, g)
      else let g1 = (if isFirstAction g then g\<lparr>isFirstAction := False\<rparr> else g);
               amountToCall = currentBet g1 - Player.currentBet player
      in case act of
           FOLD \<Rightarrow> processAction_accept g1 (fold_player player) 0 (name player @ '' folds'') ''f''
         | CHECK \<Rightarrow>
             if amountToCall > 0 then Inr (False, g1)
             else processAction_accept g1 (check player) 0 (name player @ '' checks'') ''x''
         | CALL \<Rightarrow>
             if amountToCall \<le> 0 then Inr (False, g1)
             else (let (actionAmount, p) = call amountToCall player
                   in processAction_accept (g1\<lparr>pot := pot g1 + actionAmount\<rparr>) p actionAmount
                        (name p @ '' calls '' @ show_int actionAmount) ''c'')
         | BET \<Rightarrow>
             if currentBet g1 > 0 then Inr (False, g1)
             else (case amt of
                     None \<Rightarrow> Inr (False, g1)
                   | Some a \<Rightarrow>
                       if a = 0 \<or> a < BIG_BLIND then Inr (False, g1)
                       else (let (actionAmount, p) = bet a player
                             in processAction_accept
                                  (g1\<lparr>pot := pot g1 + actionAmount, currentBet := Player.currentBet p\<rparr>)
                                  p actionAmount
                                  (name p @ '' bets '' @ show_int actionAmount)
                                  (''b'' @ show_int actionAmount)))
         | RAISE \<Rightarrow>
             if currentBet g1 = 0 then Inr (False, g1)
             else (case amt of
                     None \<Rightarrow> Inr (False, g1)
                   | Some a \<Rightarrow>
                       if a = 0 \<or> a \<le> currentBet g1 then Inr (False, g1)
                       else (let totalRaiseAmount = a - Player.currentBet player;
                                 (actionAmount, p) = bet totalRaiseAmount player
                             in processAction_accept
                                  (g1\<lparr>pot := pot g1 + actionAmount, currentBet := Player.currentBet p\<rparr>)
                                  p actionAmount
                                  (name p @ '' raises to '' @ show_int (Player.currentBet p))
                                  (''r'' @ show_int (Player.currentBet p))))
         | ALL_IN \<Rightarrow>
             (let (actionAmount, p) = allIn player;
                  g2 = g1\<lparr>pot := pot g1 + actionAmount\<rparr>;
                  g3 = (if Player.currentBet p > currentBet g2
                        then g2\<lparr>currentBet := Player.currentBet p\<rparr> else g2)
              in processAction_accept g3 p actionAmount
                   (name p @ '' goes all-in for '' @ show_int actionAmount) ''allin'')
         | UNKNOWN \<Rightarrow> Inr (False, g1))"

definition getValidActions :: "PokerGame \<Rightarrow> PlayerAction list" where
  "getValidActions g =
     (if \<not> activePlayerIndex g < length (players g) then []
      else let player = players g ! activePlayerIndex g
      in if \<not> canAct player \<or> phase g = FINISHED \<or> phase g = SETUP then []
      else let amountToCall = currentBet g - Player.currentBet player
      in [FOLD]
         @ (if amountToCall = 0
            then [CHECK] @ (if stack player \<ge> BIG_BLIND then [BET] else [])
            else (if stack player \<ge> amountToCall then [CALL] else [])
                 @ (if stack player > amountToCall \<and> stack player \<ge> BIG_BLIND then [RAISE] else []))
         @ (if stack player > 0 then [ALL_IN] else []))"

section \<open>Reachable engines and running hands\<close>

text \<open>
  The engines a caller can hold: a new one, and whatever the three mutating methods
  of the public interface return.
\<close>

inductive reachable :: "PokerGame \<Rightarrow> bool" where
  reachable_new: "reachable (PokerGame_new rnd)"
| reachable_stacks: "reachable g \<Longrightarrow> setPlayerStacks stacks g = Inr g' \<Longrightarrow> reachable g'"
| reachable_start: "reachable g \<Longrightarrow> startNewHand hid rnd g = Inr g' \<Longrightarrow> reachable g'"
| reachable_action: "reachable g \<Longrightarrow> processAction act amt g = Inr (ok, g') \<Longrightarrow> reachable g'"

text \<open>
  A hand in progress: \<open>setPlayerStacks stacks\<close> then \<open>startNewHand\<close> on a reachable
  engine, then any actions, each submitted while the hand is not \<open>FINISHED\<close>.
\<close>

inductive in_hand :: "int list \<Rightarrow> PokerGame \<Rightarrow> bool" where
  in_hand_start:
    "reachable g0 \<Longrightarrow> setPlayerStacks stacks g0 = Inr g1 \<Longrightarrow> startNewHand hid rnd g1 = Inr g
     \<Longrightarrow> in_hand stacks g"
| in_hand_action:
    "in_hand stacks g \<Longrightarrow> PokerGame.phase g \<noteq> FINISHED \<Longrightarrow>
     processAction act amt g = Inr (ok, g') \<Longrightarrow> in_hand stacks g'"

text \<open>
  Concrete scenarios: a new engine given \<open>stacks\<close> whose first hand is started (hand id
  empty, every shuffle draw \<open>0\<close>), and a list of actions submitted in order.
\<close>

definition new_table :: "int list \<Rightarrow> error + PokerGame" where
  "new_table stacks =
     bindE (setPlayerStacks stacks (PokerGame_new (\<lambda>i. 0))) (startNewHand [] (\<lambda>i. 0))"

fun play :: "(PlayerAction \<times> int option) list \<Rightarrow> PokerGame \<Rightarrow> error + PokerGame" where
  "play [] g = Inr g"
| "play ((act, amt) # rest) g = bindE (processAction act amt g) (\<lambda>(ok, g'). play rest g')"

text \<open>
  \<open>live_play acts g\<close>: every action of the list is submitted while the hand is not
  \<open>FINISHED\<close>, and none throws.
\<close>

fun live_play :: "(PlayerAction \<times> int option) list \<Rightarrow> PokerGame \<Rightarrow> bool" where
  "live_play [] g = True"
| "live_play ((act, amt) # rest) g =
     (PokerGame.phase g \<noteq> FINISHED \<and>
      (case processAction act amt g of Inl e \<Rightarrow> False | Inr (ok, g') \<Rightarrow> live_play rest g'))"

text \<open>
  The scenarios the closed theorems below are evaluated at. \<open>table_1000\<close>: six seats of
  1000, first hand started. \<open>table_folded\<close>: the five seats that act first fold.
  \<open>table_showdown\<close>: the five seats that act first call (that closes the first round:
  posting the big blind has marked its seat as having acted), then every seat checks on
  the flop, the turn and the river. \<open>table_short_30\<close>, \<open>table_short_10\<close>: the seat first
  to act holds 30, or 10, chips. \<open>table_one_funded\<close>: only seat 0 has chips, stacks set
  and no hand started yet. \<open>seated_short_30\<close>: the stacks of \<open>table_short_30\<close> set and no
  hand started yet. \<open>table_negative_river\<close>: seat 2, the small blind, was given the stack
  -50; the four seats that act first fold, and the big blind checks on the flop and on
  the turn.
\<close>

definition table_1000 :: PokerGame where
  "table_1000 = projr (new_table [1000, 1000, 1000, 1000, 1000, 1000])"

definition five_folds :: "(PlayerAction \<times> int option) list" where
  "five_folds = [(FOLD, None), (FOLD, None), (FOLD, None), (FOLD, None), (FOLD, None)]"

definition table_folded :: PokerGame where
  "table_folded = projr (play five_folds table_1000)"

definition check_down :: "(PlayerAction \<times> int option) list" where
  "check_down =
     [(CALL, None), (CALL, None), (CALL, None), (CALL, None), (CALL, None)]
     @ replicate 18 (CHECK, None)"

definition table_showdown :: PokerGame where
  "table_showdown = projr (play check_down table_1000)"

definition table_short_30 :: PokerGame where
  "table_short_30 = projr (new_table [1000, 1000, 1000, 1000, 30, 1000])"

definition table_short_10 :: PokerGame where
  "table_short_10 = projr (new_table [1000, 1000, 1000, 1000, 10, 1000])"

definition table_one_funded :: PokerGame where
  "table_one_funded = projr (setPlayerStacks [1000, 0, 0, 0, 0, 0] (PokerGame_new (\<lambda>i. 0)))"

definition seated_short_30 :: PokerGame where
  "seated_short_30 =
     projr (setPlayerStacks [1000, 1000, 1000, 1000, 30, 1000] (PokerGame_new (\<lambda>i. 0)))"

definition table_negative :: PokerGame where
  "table_negative = projr (new_table [1000, 1000, - 50, 1000, 1000, 1000])"

definition folds_then_checks :: "(PlayerAction \<times> int option) list" where
  "folds_then_checks =
     [(FOLD, None), (FOLD, None), (FOLD, None), (FOLD, None), (CHECK, None), (CHECK, None)]"

definition table_negative_river :: PokerGame where
  "table_negative_river = projr (play folds_then_checks table_negative)"

section \<open>Invariants of a running hand\<close>

text \<open>
  Proof devices, not part of the engine. \<open>seats_inv\<close>: six seats, and at least two of
  them not folded while the hand runs. \<open>cards_inv\<close>: the board and the deck by phase.
  \<open>chips_inv\<close>: where the chips of the starting stacks \<open>st\<close> are. \<open>nonneg_inv\<close>: no
  negative stack or bet, and the pot is what the seats have put in.
\<close>

definition seats_inv :: "PokerGame \<Rightarrow> bool" where
  "seats_inv g \<longleftrightarrow>
     length (players g) = 6 \<and>
     (PokerGame.phase g \<noteq> FINISHED \<longrightarrow> 2 \<le> length (filter (\<lambda>p. \<not> hasFolded p) (players g)))"

definition cards_inv :: "PokerGame \<Rightarrow> bool" where
  "cards_inv g \<longleftrightarrow>
     (case PokerGame.phase g of
        PREFLOP \<Rightarrow> length (communityCards g) = 0 \<and> length (deck g) = 40
      | FLOP \<Rightarrow> length (communityCards g) = 3 \<and> length (deck g) = 36
      | TURN \<Rightarrow> length (communityCards g) = 4 \<and> length (deck g) = 34
      | RIVER \<Rightarrow> length (communityCards g) = 5 \<and> length (deck g) = 32
      | FINISHED \<Rightarrow> length (communityCards g) \<in> {0, 3, 4, 5}
      | _ \<Rightarrow> False)"

definition chips_inv :: "int list \<Rightarrow> PokerGame \<Rightarrow> bool" where
  "chips_inv st g \<longleftrightarrow>
     initialStacks g = st \<and>
     (if PokerGame.phase g = FINISHED then sum_list (map stack (players g)) = sum_list st
      else pot g + sum_list (map stack (players g)) = sum_list st)"

definition nonneg_inv :: "PokerGame \<Rightarrow> bool" where
  "nonneg_inv g \<longleftrightarrow>
     (\<forall>p\<in>set (players g). 0 \<le> stack p \<and> 0 \<le> Player.currentBet p \<and>
                            Player.currentBet p \<le> totalBetThisHand p) \<and>
     0 \<le> PokerGame.currentBet g \<and>
     pot g = sum_list (map totalBetThisHand (players g))"

section \<open>Basic facts\<close>

lemma bindE_Inl [simp]: "bindE (Inl e) f = Inl e"
  by (simp add: bindE_def)

lemma bindE_Inr [simp]: "bindE (Inr x) f = f x"
  by (simp add: bindE_def)

lemma bindE_eq_Inr: "bindE m f = Inr y \<longleftrightarrow> (\<exists>x. m = Inr x \<and> f x = Inr y)"
  by (cases m) simp_all

lemma bindE_eq_Inl: "bindE m f = Inl e \<longleftrightarrow> m = Inl e \<or> (\<exists>x. m = Inr x \<and> f x = Inl e)"
  by (cases m) simp_all

lemma getPlayer_Inr [simp]: "i < length ps \<Longrightarrow> getPlayer ps i = Inr (ps ! i)"
  by (simp add: getPlayer_def)

lemma length_shuffle_loop [simp]: "length (shuffle_loop rnd i cs) = length cs"
  by (induction i arbitrary: cs) (simp_all add: Let_def)

lemma length_fresh_cards:
  "length (concat (map (\<lambda>s. map (\<lambda>r. \<lparr>rank = r, suit = s\<rparr>) all_ranks) all_suits)) = 52"
  by (simp add: all_suits_def all_ranks_def)

lemma length_Deck_reset [simp]: "length (Deck_reset rnd) = 52"
  unfolding Deck_reset_def shuffle_def
  by (simp only: length_shuffle_loop length_fresh_cards)

lemma Deck_deal_Inr: "cs \<noteq> [] \<Longrightarrow> Deck_deal cs = Inr (last cs, butlast cs)"
  by (simp add: Deck_deal_def)

subsection \<open>Finding the next funded seat\<close>

lemma findNextPlayerWithChips_loop_total:
  "next < length ps \<Longrightarrow>
   \<exists>n k. findNextPlayerWithChips_loop ps next a = Inr (n, k) \<and> n < length ps \<and>
         (k < length ps \<longrightarrow> stack (ps ! n) \<noteq> 0)"
proof (induction ps "next" a rule: findNextPlayerWithChips_loop.induct)
  case (1 ps "next" attempts)
  show ?case
  proof (cases "stack (ps ! next) = 0 \<and> attempts < length ps")
    case True
    have "(next + 1) mod length ps < length ps"
      using "1.prems" by (intro mod_less_divisor) auto
    with "1.IH" [of "ps ! next"] True "1.prems" show ?thesis
      by (subst findNextPlayerWithChips_loop.simps) simp
  next
    case False
    with "1.prems" show ?thesis
      by (subst findNextPlayerWithChips_loop.simps) auto
  qed
qed

lemma findNextPlayerWithChips_loop_exhausted:
  "findNextPlayerWithChips_loop ps next a = Inr (n, k) \<Longrightarrow> next < length ps \<Longrightarrow>
   length ps \<le> k \<Longrightarrow> a \<le> length ps \<Longrightarrow> i < length ps - a \<Longrightarrow>
   stack (ps ! ((next + i) mod length ps)) = 0"
proof (induction ps "next" a arbitrary: i rule: findNextPlayerWithChips_loop.induct)
  case (1 ps "next" attempts)
  show ?case
  proof (cases "stack (ps ! next) = 0 \<and> attempts < length ps")
    case True
    have lt: "(next + 1) mod length ps < length ps"
      using "1.prems" by (intro mod_less_divisor) auto
    from "1.prems"(1) True "1.prems"(2)
    have rec: "findNextPlayerWithChips_loop ps ((next + 1) mod length ps) (attempts + 1) = Inr (n, k)"
      by (subst (asm) findNextPlayerWithChips_loop.simps) simp
    show ?thesis
    proof (cases i)
      case 0
      with True "1.prems" show ?thesis by simp
    next
      case (Suc j)
      have "stack (ps ! (((next + 1) mod length ps + j) mod length ps)) = 0"
        using "1.IH" [OF True rec lt, of j] "1.prems" True Suc by simp
      then show ?thesis
        using Suc by (simp add: mod_simps ac_simps)
    qed
  next
    case False
    with "1.prems" have "k = attempts"
      by (subst (asm) findNextPlayerWithChips_loop.simps) auto
    with "1.prems" show ?thesis by simp
  qed
qed

lemma findNextPlayerWithChips_funded:
  assumes len: "length ps = 6" and some: "\<exists>p\<in>set ps. stack p \<noteq> 0"
  shows "\<exists>n. findNextPlayerWithChips from ps = Inr n \<and> n < 6 \<and> stack (ps ! n) \<noteq> 0"
proof -
  have lt: "(from + 1) mod length ps < length ps"
    using len by simp
  from findNextPlayerWithChips_loop_total [OF lt, of 0]
  obtain n k where r: "findNextPlayerWithChips_loop ps ((from + 1) mod length ps) 0 = Inr (n, k)"
    and n: "n < length ps" and k: "k < length ps \<longrightarrow> stack (ps ! n) \<noteq> 0"
    by blast
  have "k < length ps"
  proof (rule ccontr)
    assume "\<not> k < length ps"
    then have z: "\<And>i. i < 6 \<Longrightarrow> stack (ps ! ((((from + 1) mod 6) + i) mod 6)) = 0"
      using findNextPlayerWithChips_loop_exhausted [OF r lt] len by simp
    from some obtain m where m: "m < 6" "stack (ps ! m) \<noteq> 0"
      using len by (auto simp: in_set_conv_nth)
    define d where "d = (from + 1) mod 6"
    have d: "d < 6" by (simp add: d_def)
    have "(d + (m + 6 - d) mod 6) mod 6 = (d + (m + 6 - d)) mod 6"
      by (simp add: mod_add_right_eq)
    also have "d + (m + 6 - d) = m + 6"
      using d by simp
    finally have "(((from + 1) mod 6) + ((m + 6 - (from + 1) mod 6) mod 6)) mod 6 = m"
      using m(1) by (simp add: d_def)
    with z [of "(m + 6 - (from + 1) mod 6) mod 6"] m(2) show False
      by simp
  qed
  with r n k len show ?thesis
    by (simp add: findNextPlayerWithChips_def)
qed

lemma findNextPlayerWithChips_broke:
  assumes len: "length ps = 6" and none: "\<forall>p\<in>set ps. stack p = 0"
  shows "findNextPlayerWithChips from ps = Inl NoPlayersWithChips"
proof -
  have lt: "(from + 1) mod length ps < length ps"
    using len by simp
  from findNextPlayerWithChips_loop_total [OF lt, of 0]
  obtain n k where r: "findNextPlayerWithChips_loop ps ((from + 1) mod length ps) 0 = Inr (n, k)"
    and n: "n < length ps" and k: "k < length ps \<longrightarrow> stack (ps ! n) \<noteq> 0"
    by blast
  from n none have "stack (ps ! n) = 0" by simp
  with k have "length ps \<le> k" by auto
  with r show ?thesis
    by (simp add: findNextPlayerWithChips_def)
qed

subsection \<open>Lists of seats\<close>

lemma length_6_cases:
  "length xs = 6 \<Longrightarrow> \<exists>a b c d e f. xs = [a, b, c, d, e, f]"
  by (simp add: numeral_eq_Suc length_Suc_conv) blast

lemma upt_0_6: "[0..<6] = [0, 1, 2, 3, 4, 5]"
  by (simp add: upt_eq_Cons_conv)

lemma upt_0_3: "[0..<3] = [0, 1, 2]"
  by (simp add: upt_eq_Cons_conv)

lemma upt_0_2: "[0..<2] = [0, 1]"
  by (simp add: upt_eq_Cons_conv)

lemma sum_list_map_update:
  fixes f :: "'a \<Rightarrow> int"
  shows "i < length xs \<Longrightarrow> sum_list (map f (xs[i := y])) = sum_list (map f xs) - f (xs ! i) + f y"
  by (induction xs arbitrary: i) (auto split: nat.splits)

lemma map_update_same:
  "i < length xs \<Longrightarrow> f y = f (xs ! i) \<Longrightarrow> map f (xs[i := y]) = map f xs"
  by (simp add: list_eq_iff_nth_eq nth_list_update)

lemma length_filter_update_same:
  "i < length xs \<Longrightarrow> P y = P (xs ! i) \<Longrightarrow> length (filter P (xs[i := y])) = length (filter P xs)"
  by (induction xs arbitrary: i) (auto split: nat.splits)

lemma length_filter_update_drop:
  "i < length xs \<Longrightarrow> P (xs ! i) \<Longrightarrow> \<not> P y \<Longrightarrow>
   Suc (length (filter P (xs[i := y]))) = length (filter P xs)"
  by (induction xs arbitrary: i) (auto split: nat.splits)

lemma length_update_first [simp]: "length (update_first P f xs) = length xs"
  by (induction xs) simp_all

lemma map_update_first_same:
  "(\<And>x. h (f x) = h x) \<Longrightarrow> map h (update_first P f xs) = map h xs"
  by (induction xs) simp_all

lemma sum_stack_update_first:
  "filter P xs \<noteq> [] \<Longrightarrow>
   sum_list (map stack (update_first P (\<lambda>p. p\<lparr>stack := stack p + c\<rparr>) xs)) =
   sum_list (map stack xs) + c"
  by (induction xs) auto

lemma filter_cong_map:
  "map h xs = map h ys \<Longrightarrow> length (filter (\<lambda>x. Q (h x)) xs) = length (filter (\<lambda>x. Q (h x)) ys)"
proof -
  assume "map h xs = map h ys"
  then have "length (filter Q (map h xs)) = length (filter Q (map h ys))"
    by simp
  then show ?thesis
    by (simp add: filter_map o_def)
qed

subsection \<open>Setting the stacks\<close>

lemma setPlayerStacks_Inr:
  assumes "length (players g) = 6" and "length stacks = 6"
  shows "setPlayerStacks stacks g =
         Inr (g\<lparr>initialStacks := stacks,
                players := map (\<lambda>(p, s). p\<lparr>stack := s\<rparr>) (zip (players g) stacks)\<rparr>)"
proof -
  from length_6_cases [OF assms(1)] obtain a b c d e f where ps: "players g = [a, b, c, d, e, f]"
    by blast
  from length_6_cases [OF assms(2)] obtain s0 s1 s2 s3 s4 s5 where st: "stacks = [s0, s1, s2, s3, s4, s5]"
    by blast
  show ?thesis
    by (simp add: setPlayerStacks_def ps st upt_0_6)
qed

lemma setPlayerStacks_Inr_iff:
  assumes "length (players g) = 6"
  shows "setPlayerStacks stacks g = Inr g' \<longleftrightarrow>
         length stacks = 6 \<and>
         g' = g\<lparr>initialStacks := stacks,
                players := map (\<lambda>(p, s). p\<lparr>stack := s\<rparr>) (zip (players g) stacks)\<rparr>"
proof (cases "length stacks = 6")
  case True
  with setPlayerStacks_Inr [OF assms True] show ?thesis by auto
next
  case False
  then show ?thesis by (simp add: setPlayerStacks_def)
qed

subsection \<open>Dealing the hole cards\<close>

lemma dealHoleCards_body_Inr:
  assumes "length (players g) = 6" and "deck g \<noteq> []"
  shows "\<exists>g'. dealHoleCards_body i g = Inr g' \<and> length (deck g') = length (deck g) - 1 \<and>
           map (\<lambda>p. p\<lparr>holeCards := []\<rparr>) (players g') = map (\<lambda>p. p\<lparr>holeCards := []\<rparr>) (players g) \<and>
           g' = g\<lparr>deck := deck g', players := players g'\<rparr>"
  using assms
  by (simp add: dealHoleCards_body_def Let_def Deck_deal_Inr map_update_same)

lemma dealHoleCards_inner_Inr:
  "length (players g) = 6 \<Longrightarrow> length xs \<le> length (deck g) \<Longrightarrow>
   \<exists>g'. foldE dealHoleCards_body xs g = Inr g' \<and> length (deck g') = length (deck g) - length xs \<and>
        map (\<lambda>p. p\<lparr>holeCards := []\<rparr>) (players g') = map (\<lambda>p. p\<lparr>holeCards := []\<rparr>) (players g) \<and>
        g' = g\<lparr>deck := deck g', players := players g'\<rparr>"
proof (induction xs arbitrary: g)
  case Nil
  then show ?case by simp
next
  case (Cons x xs)
  from Cons.prems have ne: "deck g \<noteq> []" by auto
  from dealHoleCards_body_Inr [OF Cons.prems(1) ne, of x]
  obtain g1 where g1: "dealHoleCards_body x g = Inr g1" "length (deck g1) = length (deck g) - 1"
      "map (\<lambda>p. p\<lparr>holeCards := []\<rparr>) (players g1) = map (\<lambda>p. p\<lparr>holeCards := []\<rparr>) (players g)"
      "g1 = g\<lparr>deck := deck g1, players := players g1\<rparr>"
    by blast
  from g1(3) have len1: "length (players g1) = 6"
    using Cons.prems(1) by (metis length_map)
  have "length xs \<le> length (deck g1)"
    using g1(2) Cons.prems(2) by simp
  from Cons.IH [OF len1 this]
  obtain g' where g': "foldE dealHoleCards_body xs g1 = Inr g'"
      "length (deck g') = length (deck g1) - length xs"
      "map (\<lambda>p. p\<lparr>holeCards := []\<rparr>) (players g') = map (\<lambda>p. p\<lparr>holeCards := []\<rparr>) (players g1)"
      "g' = g1\<lparr>deck := deck g', players := players g'\<rparr>"
    by blast
  have "g' = g\<lparr>deck := deck g', players := players g'\<rparr>"
    by (subst g'(4), subst g1(4)) simp
  with g1 g' show ?case
    by simp
qed

lemma dealHoleCards_Inr:
  assumes len: "length (players g) = 6" and dk: "12 \<le> length (deck g)"
  shows "\<exists>g'. dealHoleCards g = Inr g' \<and> length (deck g') = length (deck g) - 12 \<and>
           map (\<lambda>p. p\<lparr>holeCards := []\<rparr>) (players g') = map (\<lambda>p. p\<lparr>holeCards := []\<rparr>) (players g) \<and>
           g' = g\<lparr>deck := deck g', players := players g'\<rparr>"
proof -
  have "length [0..<6] \<le> length (deck g)" using dk by simp
  from dealHoleCards_inner_Inr [OF len this]
  obtain g1 where g1: "foldE dealHoleCards_body [0..<6] g = Inr g1" "length (deck g1) = length (deck g) - 6"
      "map (\<lambda>p. p\<lparr>holeCards := []\<rparr>) (players g1) = map (\<lambda>p. p\<lparr>holeCards := []\<rparr>) (players g)"
      "g1 = g\<lparr>deck := deck g1, players := players g1\<rparr>"
    by auto
  from g1(3) have len1: "length (players g1) = 6"
    using len by (metis length_map)
  have "length [0..<6] \<le> length (deck g1)" using dk g1(2) by simp
  from dealHoleCards_inner_Inr [OF len1 this]
  obtain g2 where g2: "foldE dealHoleCards_body [0..<6] g1 = Inr g2" "length (deck g2) = length (deck g1) - 6"
      "map (\<lambda>p. p\<lparr>holeCards := []\<rparr>) (players g2) = map (\<lambda>p. p\<lparr>holeCards := []\<rparr>) (players g1)"
      "g2 = g1\<lparr>deck := deck g2, players := players g2\<rparr>"
    by auto
  have eq: "g2 = g\<lparr>deck := deck g2, players := players g2\<rparr>"
    by (subst g2(4), subst g1(4)) simp
  have run: "dealHoleCards g = Inr g2"
    unfolding dealHoleCards_def
    by (simp only: upt_0_2 foldE.simps g1(1) g2(1) bindE_Inr)
  from run g1 g2 eq show ?thesis by simp
qed

subsection \<open>Choosing the seat to act\<close>

lemma findNextActivePlayer_loop_total:
  "length ps = 6 \<Longrightarrow> active < 6 \<Longrightarrow>
   \<exists>a. findNextActivePlayer_loop ps s n active = Inr a \<and> a < 6"
proof (induction ps s n active rule: findNextActivePlayer_loop.induct)
  case (1 ps startIndex attempts active)
  show ?case
  proof (cases "attempts < 6 \<and> \<not> canAct (ps ! active) \<and>
                \<not> ((active + 1) mod 6 = startIndex \<and> attempts + 1 > 0)")
    case True
    have "(active + 1) mod 6 < 6" by simp
    from "1.IH" [OF _ _ refl refl _ "1.prems"(1) this, of "ps ! active"] True
    obtain a where "findNextActivePlayer_loop ps startIndex (attempts + 1) ((active + 1) mod 6) = Inr a"
      and "a < 6"
      by auto
    with True "1.prems" show ?thesis
      by (subst findNextActivePlayer_loop.simps) (simp add: Let_def)
  next
    case False
    with "1.prems" show ?thesis
      by (subst findNextActivePlayer_loop.simps) (auto simp: Let_def)
  qed
qed

lemma findNextActivePlayer_loop_canAct:
  "active < length ps \<Longrightarrow> canAct (ps ! active) \<Longrightarrow>
   findNextActivePlayer_loop ps s 0 active = Inr active"
  by (subst findNextActivePlayer_loop.simps) simp

lemma findNextActivePlayer_Inr:
  assumes "length (players g) = 6" and "activePlayerIndex g < 6"
  shows "\<exists>a<6. findNextActivePlayer g = Inr (g\<lparr>activePlayerIndex := a\<rparr>)"
  using findNextActivePlayer_loop_total [OF assms, of "activePlayerIndex g" 0]
  by (auto simp: findNextActivePlayer_def)

lemma setActivePlayer_Inr:
  assumes "length (players g) = 6"
  shows "\<exists>a<6. setActivePlayer g = Inr (g\<lparr>activePlayerIndex := a\<rparr>)"
proof (cases "PokerGame.phase g = PREFLOP")
  case True
  from findNextActivePlayer_Inr [of "g\<lparr>activePlayerIndex := (bigBlindIndex g + 1) mod 6\<rparr>"] assms
  show ?thesis by (simp add: setActivePlayer_def True)
next
  case False
  from findNextActivePlayer_Inr [of "g\<lparr>activePlayerIndex := (dealerIndex g + 1) mod 6\<rparr>"] assms
  show ?thesis by (simp add: setActivePlayer_def False)
qed

lemma moveToNextPlayer_Inr:
  assumes "length (players g) = 6"
  shows "\<exists>a<6. moveToNextPlayer g = Inr (g\<lparr>activePlayerIndex := a\<rparr>)"
  using findNextActivePlayer_Inr [of "g\<lparr>activePlayerIndex := (activePlayerIndex g + 1) mod 6\<rparr>"] assms
  by (simp add: moveToNextPlayer_def)

subsection \<open>Committing chips\<close>

lemma bet_fst [simp]: "fst (bet a p) = min a (stack p)"
  by (simp add: bet_def Let_def)

lemma bet_stack [simp]: "stack (snd (bet a p)) = stack p - min a (stack p)"
  by (simp add: bet_def Let_def)

lemma bet_currentBet [simp]:
  "Player.currentBet (snd (bet a p)) = Player.currentBet p + min a (stack p)"
  by (simp add: bet_def Let_def)

lemma bet_totalBetThisHand [simp]:
  "totalBetThisHand (snd (bet a p)) = totalBetThisHand p + min a (stack p)"
  by (simp add: bet_def Let_def)

lemma bet_hasFolded [simp]: "hasFolded (snd (bet a p)) = hasFolded p"
  by (simp add: bet_def Let_def)

lemma bet_isAllIn [simp]:
  "isAllIn (snd (bet a p)) \<longleftrightarrow> isAllIn p \<or> stack p - min a (stack p) = 0"
  by (auto simp: bet_def Let_def)

lemma bet_name [simp]: "name (snd (bet a p)) = name p"
  by (simp add: bet_def Let_def)

lemma bet_holeCards [simp]: "holeCards (snd (bet a p)) = holeCards p"
  by (simp add: bet_def Let_def)

lemma call_eq: "call a p = bet (min a (stack p)) p"
  by (simp add: call_def Let_def)

lemma allIn_eq: "allIn p = (stack p, snd (bet (stack p) p))"
  by (simp add: allIn_def Let_def)

subsection \<open>Posting the blinds\<close>

lemma postBlinds_Inr:
  assumes "smallBlindIndex g < length (players g)" and "bigBlindIndex g < length (players g)"
  shows "postBlinds g =
         Inr (g\<lparr>players := (players g)
                   [smallBlindIndex g := snd (bet SMALL_BLIND (players g ! smallBlindIndex g)),
                    bigBlindIndex g := snd (bet BIG_BLIND
                      ((players g)[smallBlindIndex g := snd (bet SMALL_BLIND (players g ! smallBlindIndex g))]
                         ! bigBlindIndex g))],
                pot := pot g + fst (bet SMALL_BLIND (players g ! smallBlindIndex g))
                       + fst (bet BIG_BLIND
                      ((players g)[smallBlindIndex g := snd (bet SMALL_BLIND (players g ! smallBlindIndex g))]
                         ! bigBlindIndex g)),
                currentBet := BIG_BLIND\<rparr>)"
  using assms by (simp add: postBlinds_def Let_def split_def del: bet_fst)

lemma postBlinds_chips:
  assumes "postBlinds g = Inr g'"
  shows "pot g' + sum_list (map stack (players g')) = pot g + sum_list (map stack (players g))"
proof -
  from assms have sb: "smallBlindIndex g < length (players g)"
    by (auto simp: postBlinds_def bindE_eq_Inr getPlayer_def split: if_splits)
  from assms sb have bb: "bigBlindIndex g < length (players g)"
    by (auto simp: postBlinds_def bindE_eq_Inr getPlayer_def Let_def split_def split: if_splits)
  from assms show ?thesis
    unfolding postBlinds_Inr [OF sb bb] using sb bb
    by (auto simp: sum_list_map_update nth_list_update)
qed

subsection \<open>Starting a hand\<close>

lemma reset_stack [simp]: "stack (reset p) = stack p"
  by (simp add: reset_def)

lemma resetForNewHand_funded:
  assumes len: "length (players g) = 6" and funded: "\<exists>p\<in>set (players g). stack p \<noteq> 0"
  shows "\<exists>d sb bb. d < 6 \<and> sb < 6 \<and> bb < 6 \<and>
           findNextPlayerWithChips (dealerIndex g) (map reset (players g)) = Inr d \<and>
           findNextPlayerWithChips d (map reset (players g)) = Inr sb \<and>
           findNextPlayerWithChips sb (map reset (players g)) = Inr bb \<and>
           resetForNewHand hid rnd g =
             Inr (g\<lparr>handId := hid, deck := Deck_reset rnd, communityCards := [], pot := 0,
                    currentBet := 0, actionLog := [], gameActions := [], phase := SETUP,
                    isFirstAction := True, players := map reset (players g),
                    dealerIndex := d, smallBlindIndex := sb, bigBlindIndex := bb\<rparr>)"
proof -
  let ?ps = "map reset (players g)"
  have len': "length ?ps = 6" using len by simp
  have funded': "\<exists>p\<in>set ?ps. stack p \<noteq> 0" using funded by auto
  from findNextPlayerWithChips_funded [OF len' funded', of "dealerIndex g"]
  obtain d where d: "findNextPlayerWithChips (dealerIndex g) ?ps = Inr d" "d < 6" by blast
  from findNextPlayerWithChips_funded [OF len' funded', of d]
  obtain sb where sb: "findNextPlayerWithChips d ?ps = Inr sb" "sb < 6" by blast
  from findNextPlayerWithChips_funded [OF len' funded', of sb]
  obtain bb where bb: "findNextPlayerWithChips sb ?ps = Inr bb" "bb < 6" by blast
  from d sb bb show ?thesis
    by (intro exI [of _ d] exI [of _ sb] exI [of _ bb]) (simp add: resetForNewHand_def Let_def)
qed

lemma resetForNewHand_broke:
  assumes len: "length (players g) = 6" and broke: "\<forall>p\<in>set (players g). stack p = 0"
  shows "resetForNewHand hid rnd g = Inl NoPlayersWithChips"
proof -
  let ?ps = "map reset (players g)"
  have len': "length ?ps = 6" using len by simp
  have broke': "\<forall>p\<in>set ?ps. stack p = 0" using broke by auto
  from findNextPlayerWithChips_broke [OF len' broke', of "dealerIndex g"] show ?thesis
    by (simp add: resetForNewHand_def Let_def)
qed

lemma startNewHand_broke:
  assumes "length (players g) = 6" and "\<forall>p\<in>set (players g). stack p = 0"
  shows "startNewHand hid rnd g = Inl NoPlayersWithChips"
  by (simp add: startNewHand_def resetForNewHand_broke [OF assms])

lemma startNewHand_funded:
  assumes len: "length (players g) = 6" and funded: "\<exists>p\<in>set (players g). stack p \<noteq> 0"
  shows "\<exists>g1 g2 g'. resetForNewHand hid rnd g = Inr g1 \<and> postBlinds g1 = Inr g2 \<and>
           startNewHand hid rnd g = Inr g' \<and>
           players g1 = map reset (players g) \<and> pot g1 = 0 \<and>
           length (players g') = 6 \<and> length (deck g') = 40 \<and>
           map (\<lambda>p. p\<lparr>holeCards := []\<rparr>) (players g') = map (\<lambda>p. p\<lparr>holeCards := []\<rparr>) (players g2) \<and>
           findNextActivePlayer_loop (players g') ((bigBlindIndex g2 + 1) mod 6) 0
             ((bigBlindIndex g2 + 1) mod 6) = Inr (activePlayerIndex g') \<and>
           g' = g2\<lparr>deck := deck g', players := players g', phase := PREFLOP,
                   activePlayerIndex := activePlayerIndex g', actionLog := actionLog g'\<rparr> \<and>
           g2 = g\<lparr>handId := hid, deck := Deck_reset rnd, communityCards := [], pot := pot g2,
                  currentBet := BIG_BLIND, actionLog := [], gameActions := [], phase := SETUP,
                  isFirstAction := True, players := players g2,
                  dealerIndex := dealerIndex g2, smallBlindIndex := smallBlindIndex g2,
                  bigBlindIndex := bigBlindIndex g2\<rparr> \<and>
           dealerIndex g2 < 6 \<and> smallBlindIndex g2 < 6 \<and> bigBlindIndex g2 < 6 \<and>
           activePlayerIndex g' < 6"
proof -
  from resetForNewHand_funded [OF len funded, of hid rnd]
  obtain d sb bb where idx: "d < 6" "sb < 6" "bb < 6"
    and g1: "resetForNewHand hid rnd g =
             Inr (g\<lparr>handId := hid, deck := Deck_reset rnd, communityCards := [], pot := 0,
                    currentBet := 0, actionLog := [], gameActions := [], phase := SETUP,
                    isFirstAction := True, players := map reset (players g),
                    dealerIndex := d, smallBlindIndex := sb, bigBlindIndex := bb\<rparr>)"
      (is "_ = Inr ?g1")
    by blast
  have sb1: "smallBlindIndex ?g1 < length (players ?g1)" and bb1: "bigBlindIndex ?g1 < length (players ?g1)"
    using idx len by simp_all
  note g2 = postBlinds_Inr [OF sb1 bb1]
  obtain g2' where g2': "postBlinds ?g1 = Inr g2'"
    using g2 by blast
  have g2_eq: "g2' = g\<lparr>handId := hid, deck := Deck_reset rnd, communityCards := [], pot := pot g2',
                  currentBet := BIG_BLIND, actionLog := [], gameActions := [], phase := SETUP,
                  isFirstAction := True, players := players g2',
                  dealerIndex := d, smallBlindIndex := sb, bigBlindIndex := bb\<rparr>"
    using g2' unfolding g2 by auto
  have len2: "length (players g2') = 6"
    using g2' len unfolding g2 by auto
  have dk2: "12 \<le> length (deck g2')"
    by (subst g2_eq) simp
  from dealHoleCards_Inr [OF len2 dk2]
  obtain g3 where g3: "dealHoleCards g2' = Inr g3" "length (deck g3) = length (deck g2') - 12"
    "map (\<lambda>p. p\<lparr>holeCards := []\<rparr>) (players g3) = map (\<lambda>p. p\<lparr>holeCards := []\<rparr>) (players g2')"
    "g3 = g2'\<lparr>deck := deck g3, players := players g3\<rparr>"
    by blast
  have len3: "length (players g3) = 6"
    using g3(3) len2 by (metis length_map)
  have dk3: "length (deck g3) = 40"
    unfolding g3(2) by (subst g2_eq) simp
  have bb3: "bigBlindIndex g3 = bb" "smallBlindIndex g3 = sb" "dealerIndex g3 = d"
    by (subst g3(4), subst g2_eq, simp)+
  let ?g3 = "g3\<lparr>phase := PREFLOP\<rparr>"
  have "length (players ?g3) = 6" using len3 by simp
  from findNextActivePlayer_loop_total [OF len3, of "(bb + 1) mod 6" "(bb + 1) mod 6" 0]
  obtain a where a: "findNextActivePlayer_loop (players g3) ((bb + 1) mod 6) 0 ((bb + 1) mod 6) = Inr a"
    "a < 6" by auto
  have g4: "setActivePlayer ?g3 = Inr (?g3\<lparr>activePlayerIndex := a\<rparr>)"
    using a by (simp add: setActivePlayer_def findNextActivePlayer_def bb3)
  let ?g4 = "?g3\<lparr>activePlayerIndex := a\<rparr>"
  have run: "\<exists>L. startNewHand hid rnd g = Inr (?g4\<lparr>actionLog := L\<rparr>)"
    using idx a(2) len3
    by (simp add: startNewHand_def g1 g2' g3(1) g4 bb3 logAction_def) (rule exI, rule refl)
  then obtain L where L: "startNewHand hid rnd g = Inr (?g4\<lparr>actionLog := L\<rparr>)" by blast
  let ?G = "?g4\<lparr>actionLog := L\<rparr>"
  have bb2: "bigBlindIndex g2' = bb" "smallBlindIndex g2' = sb" "dealerIndex g2' = d"
    by (subst g2_eq, simp)+
  have f4: "players ?g1 = map reset (players g)" by simp
  have f5: "pot ?g1 = 0" by simp
  have f6: "length (players ?G) = 6" by (simp add: len3)
  have f7: "length (deck ?G) = 40" by (simp add: dk3)
  have f8: "map (\<lambda>p. p\<lparr>holeCards := []\<rparr>) (players ?G) = map (\<lambda>p. p\<lparr>holeCards := []\<rparr>) (players g2')"
    by (simp add: g3(3))
  have f9: "findNextActivePlayer_loop (players ?G) ((bigBlindIndex g2' + 1) mod 6) 0
             ((bigBlindIndex g2' + 1) mod 6) = Inr (activePlayerIndex ?G)"
    using a(1) by (simp add: bb2)
  have f10: "?G = g2'\<lparr>deck := deck ?G, players := players ?G, phase := PREFLOP,
                   activePlayerIndex := activePlayerIndex ?G, actionLog := actionLog ?G\<rparr>"
    by (subst g3(4)) simp
  have f11: "g2' = g\<lparr>handId := hid, deck := Deck_reset rnd, communityCards := [], pot := pot g2',
                  currentBet := BIG_BLIND, actionLog := [], gameActions := [], phase := SETUP,
                  isFirstAction := True, players := players g2',
                  dealerIndex := dealerIndex g2', smallBlindIndex := smallBlindIndex g2',
                  bigBlindIndex := bigBlindIndex g2'\<rparr>"
    by (subst g2_eq) (simp add: bb2)
  have f12: "dealerIndex g2' < 6" "smallBlindIndex g2' < 6" "bigBlindIndex g2' < 6"
    using idx by (simp_all add: bb2)
  have f13: "activePlayerIndex ?G < 6" using a(2) by simp
  show ?thesis
    by (rule exI [of _ ?g1], rule exI [of _ g2'], rule exI [of _ ?G], intro conjI)
       (fact g1 g2' L f4 f5 f6 f7 f8 f9 f10 f11 f12 f13)+
qed

subsection \<open>Dealing the board\<close>

lemma bindE_InrE:
  assumes "bindE m f = Inr y"
  obtains x where "m = Inr x" and "f x = Inr y"
  using assms by (cases m) simp_all

lemma burnCard_Inr:
  "burnCard g = Inr g' \<Longrightarrow>
   players g' = players g \<and> pot g' = pot g \<and> PokerGame.currentBet g' = PokerGame.currentBet g \<and>
   PokerGame.phase g' = PokerGame.phase g \<and> initialStacks g' = initialStacks g \<and>
   communityCards g' = communityCards g \<and> length (deck g') + 1 = length (deck g)"
  by (auto simp: burnCard_def Deck_deal_def split: if_splits)

lemma burnCard_total: "deck g \<noteq> [] \<Longrightarrow> \<exists>g'. burnCard g = Inr g'"
  by (simp add: burnCard_def Deck_deal_def)

lemma dealCommunity_Inr:
  "dealCommunity g = Inr g' \<Longrightarrow>
   players g' = players g \<and> pot g' = pot g \<and> PokerGame.currentBet g' = PokerGame.currentBet g \<and>
   PokerGame.phase g' = PokerGame.phase g \<and> initialStacks g' = initialStacks g \<and>
   length (communityCards g') = length (communityCards g) + 1 \<and>
   length (deck g') + 1 = length (deck g)"
  by (auto simp: dealCommunity_def Deck_deal_def split: if_splits)

lemma dealCommunity_total: "deck g \<noteq> [] \<Longrightarrow> \<exists>g'. dealCommunity g = Inr g'"
  by (simp add: dealCommunity_def Deck_deal_def)

lemma dealFlop_Inr:
  assumes "dealFlop g = Inr g'"
  shows "players g' = players g \<and> pot g' = pot g \<and> PokerGame.currentBet g' = PokerGame.currentBet g \<and>
   PokerGame.phase g' = PokerGame.phase g \<and> initialStacks g' = initialStacks g \<and>
   length (communityCards g') = length (communityCards g) + 3 \<and>
   length (deck g') + 4 = length (deck g)"
  using assms unfolding dealFlop_def upt_0_3 foldE.simps Let_def
  by (elim bindE_InrE) (auto dest!: burnCard_Inr dealCommunity_Inr simp: logAction_def)

lemma dealFlop_total:
  assumes "4 \<le> length (deck g)"
  shows "\<exists>g'. dealFlop g = Inr g'"
proof -
  from assms have "deck g \<noteq> []" by auto
  from burnCard_total [OF this] obtain g1 where g1: "burnCard g = Inr g1" by blast
  with assms have "deck g1 \<noteq> []" by (auto dest!: burnCard_Inr)
  from dealCommunity_total [OF this] obtain g2 where g2: "dealCommunity g1 = Inr g2" by blast
  with g1 assms have "deck g2 \<noteq> []" by (auto dest!: burnCard_Inr dealCommunity_Inr)
  from dealCommunity_total [OF this] obtain g3 where g3: "dealCommunity g2 = Inr g3" by blast
  with g1 g2 assms have "deck g3 \<noteq> []" by (auto dest!: burnCard_Inr dealCommunity_Inr)
  from dealCommunity_total [OF this] obtain g4 where g4: "dealCommunity g3 = Inr g4" by blast
  show ?thesis
    unfolding dealFlop_def upt_0_3 foldE.simps by (simp add: g1 g2 g3 g4 Let_def)
qed

lemma dealTurn_Inr:
  assumes "dealTurn g = Inr g'"
  shows "players g' = players g \<and> pot g' = pot g \<and> PokerGame.currentBet g' = PokerGame.currentBet g \<and>
   PokerGame.phase g' = PokerGame.phase g \<and> initialStacks g' = initialStacks g \<and>
   length (communityCards g') = length (communityCards g) + 1 \<and>
   length (deck g') + 2 = length (deck g)"
  using assms unfolding dealTurn_def Let_def
  by (elim bindE_InrE) (auto dest!: burnCard_Inr dealCommunity_Inr simp: logAction_def split: if_splits)

lemma dealTurn_total:
  assumes "2 \<le> length (deck g)" and "3 \<le> length (communityCards g)"
  shows "\<exists>g'. dealTurn g = Inr g'"
proof -
  from assms have "deck g \<noteq> []" by auto
  from burnCard_total [OF this] obtain g1 where g1: "burnCard g = Inr g1" by blast
  with assms have "deck g1 \<noteq> []" by (auto dest!: burnCard_Inr)
  from dealCommunity_total [OF this] obtain g2 where g2: "dealCommunity g1 = Inr g2" by blast
  with g1 assms have "3 < length (communityCards g2)" by (auto dest!: burnCard_Inr dealCommunity_Inr)
  then show ?thesis
    unfolding dealTurn_def by (simp add: g1 g2 Let_def)
qed

lemma dealRiver_Inr:
  assumes "dealRiver g = Inr g'"
  shows "players g' = players g \<and> pot g' = pot g \<and> PokerGame.currentBet g' = PokerGame.currentBet g \<and>
   PokerGame.phase g' = PokerGame.phase g \<and> initialStacks g' = initialStacks g \<and>
   length (communityCards g') = length (communityCards g) + 1 \<and>
   length (deck g') + 2 = length (deck g)"
  using assms unfolding dealRiver_def Let_def
  by (elim bindE_InrE) (auto dest!: burnCard_Inr dealCommunity_Inr simp: logAction_def split: if_splits)

lemma dealRiver_total:
  assumes "2 \<le> length (deck g)" and "4 \<le> length (communityCards g)"
  shows "\<exists>g'. dealRiver g = Inr g'"
proof -
  from assms have "deck g \<noteq> []" by auto
  from burnCard_total [OF this] obtain g1 where g1: "burnCard g = Inr g1" by blast
  with assms have "deck g1 \<noteq> []" by (auto dest!: burnCard_Inr)
  from dealCommunity_total [OF this] obtain g2 where g2: "dealCommunity g1 = Inr g2" by blast
  with g1 assms have "4 < length (communityCards g2)" by (auto dest!: burnCard_Inr dealCommunity_Inr)
  then show ?thesis
    unfolding dealRiver_def by (simp add: g1 g2 Let_def)
qed

subsection \<open>Ending the hand and advancing the phase\<close>

lemma processHandCompletion_Inr:
  assumes "processHandCompletion g = Inr g'"
  shows "filter (\<lambda>p. \<not> hasFolded p) (players g) \<noteq> [] \<and>
         players g' = update_first (\<lambda>p. \<not> hasFolded p) (\<lambda>p. p\<lparr>stack := stack p + pot g\<rparr>) (players g) \<and>
         pot g' = pot g \<and> PokerGame.currentBet g' = PokerGame.currentBet g \<and>
         PokerGame.phase g' = FINISHED \<and> initialStacks g' = initialStacks g \<and>
         communityCards g' = communityCards g \<and> deck g' = deck g"
  using assms unfolding processHandCompletion_def Let_def
  by (elim bindE_InrE) (auto simp: logAction_def split: if_splits list.splits)

lemma processHandCompletion_total:
  assumes "filter (\<lambda>p. \<not> hasFolded p) (players g) \<noteq> []"
  shows "\<exists>g'. processHandCompletion g = Inr g'"
  using assms unfolding processHandCompletion_def Let_def
  by (cases "filter (\<lambda>p. \<not> hasFolded p) (players g)") simp_all

lemma advanceToNextPhase_tail_Inr:
  assumes "advanceToNextPhase_tail g = Inr g'"
  shows "players g' = players g \<and> pot g' = pot g \<and> PokerGame.currentBet g' = PokerGame.currentBet g \<and>
         PokerGame.phase g' = PokerGame.phase g \<and> initialStacks g' = initialStacks g \<and>
         communityCards g' = communityCards g \<and> deck g' = deck g"
  using assms unfolding advanceToNextPhase_tail_def setActivePlayer_def findNextActivePlayer_def
  by (elim bindE_InrE) (auto simp: logAction_def split: if_splits)

lemma advanceToNextPhase_tail_total:
  assumes "length (players g) = 6"
  shows "\<exists>g'. advanceToNextPhase_tail g = Inr g'"
proof -
  from setActivePlayer_Inr [OF assms] obtain a where a: "a < 6"
    "setActivePlayer g = Inr (g\<lparr>activePlayerIndex := a\<rparr>)" by blast
  then show ?thesis
    using assms by (simp add: advanceToNextPhase_tail_def)
qed

lemma nonfolded_street_reset [simp]:
  "(\<lambda>p. \<not> hasFolded p) \<circ> (\<lambda>p. p\<lparr>hasActed := False, Player.currentBet := 0\<rparr>) =
   (\<lambda>p. \<not> hasFolded p)"
  by (simp add: fun_eq_iff)

lemma advanceToNextPhase_Inr:
  assumes "advanceToNextPhase g = Inr g'"
  shows "pot g' = pot g \<and> PokerGame.currentBet g' = 0 \<and> initialStacks g' = initialStacks g \<and>
    filter (\<lambda>p. \<not> hasFolded p) (players g) \<noteq> [] \<and>
    (PokerGame.phase g' = FINISHED \<and>
       (length (filter (\<lambda>p. \<not> hasFolded p) (players g)) \<le> 1 \<or> PokerGame.phase g = RIVER) \<and>
       players g' = update_first (\<lambda>p. \<not> hasFolded p) (\<lambda>p. p\<lparr>stack := stack p + pot g\<rparr>)
                      (map (\<lambda>p. p\<lparr>hasActed := False, Player.currentBet := 0\<rparr>) (players g)) \<and>
       communityCards g' = communityCards g \<and> deck g' = deck g
     \<or> 2 \<le> length (filter (\<lambda>p. \<not> hasFolded p) (players g)) \<and>
       players g' = map (\<lambda>p. p\<lparr>hasActed := False, Player.currentBet := 0\<rparr>) (players g) \<and>
       (PokerGame.phase g = PREFLOP \<and> PokerGame.phase g' = FLOP \<and>
          length (communityCards g') = length (communityCards g) + 3 \<and>
          length (deck g') + 4 = length (deck g)
        \<or> PokerGame.phase g = FLOP \<and> PokerGame.phase g' = TURN \<and>
          length (communityCards g') = length (communityCards g) + 1 \<and>
          length (deck g') + 2 = length (deck g)
        \<or> PokerGame.phase g = TURN \<and> PokerGame.phase g' = RIVER \<and>
          length (communityCards g') = length (communityCards g) + 1 \<and>
          length (deck g') + 2 = length (deck g)
        \<or> (PokerGame.phase g = SETUP \<or> PokerGame.phase g = SHOWDOWN \<or> PokerGame.phase g = FINISHED) \<and>
          PokerGame.phase g' = PokerGame.phase g \<and>
          communityCards g' = communityCards g \<and> deck g' = deck g))"
proof -
  let ?g1 = "g\<lparr>players := map (\<lambda>p. p\<lparr>hasActed := False, Player.currentBet := 0\<rparr>) (players g),
               currentBet := 0\<rparr>"
  let ?n = "length (filter (\<lambda>p. \<not> hasFolded p) (players g))"
  have nf: "filter (\<lambda>p. \<not> hasFolded p) (players ?g1) \<noteq> [] \<longleftrightarrow> filter (\<lambda>p. \<not> hasFolded p) (players g) \<noteq> []"
    by (simp add: filter_map)
  show ?thesis
  proof (cases "?n \<le> 1")
    case True
    with assms have "processHandCompletion (?g1\<lparr>phase := FINISHED\<rparr>) = Inr g'"
      by (simp add: advanceToNextPhase_def Let_def)
    from processHandCompletion_Inr [OF this] nf True show ?thesis
      by simp
  next
    case False
    then have two: "2 \<le> ?n" by simp
    show ?thesis
    proof (cases "PokerGame.phase g")
      case PREFLOP
      with assms False obtain g2 where d: "dealFlop ?g1 = Inr g2"
        and t: "advanceToNextPhase_tail (g2\<lparr>phase := FLOP\<rparr>) = Inr g'"
        by (auto simp: advanceToNextPhase_def Let_def elim: bindE_InrE)
      from dealFlop_Inr [OF d] advanceToNextPhase_tail_Inr [OF t] two PREFLOP show ?thesis
        by auto
    next
      case FLOP
      with assms False obtain g2 where d: "dealTurn ?g1 = Inr g2"
        and t: "advanceToNextPhase_tail (g2\<lparr>phase := TURN\<rparr>) = Inr g'"
        by (auto simp: advanceToNextPhase_def Let_def elim: bindE_InrE)
      from dealTurn_Inr [OF d] advanceToNextPhase_tail_Inr [OF t] two FLOP show ?thesis
        by auto
    next
      case TURN
      with assms False obtain g2 where d: "dealRiver ?g1 = Inr g2"
        and t: "advanceToNextPhase_tail (g2\<lparr>phase := RIVER\<rparr>) = Inr g'"
        by (auto simp: advanceToNextPhase_def Let_def elim: bindE_InrE)
      from dealRiver_Inr [OF d] advanceToNextPhase_tail_Inr [OF t] two TURN show ?thesis
        by auto
    next
      case RIVER
      with assms False have "processHandCompletion (logAction ''*** SHOWDOWN ***'' (?g1\<lparr>phase := SHOWDOWN\<rparr>)) = Inr g'"
        by (simp add: advanceToNextPhase_def Let_def processShowdown_def)
      from processHandCompletion_Inr [OF this] nf RIVER show ?thesis
        by (simp add: logAction_def)
    next
      case SETUP
      with assms False have t: "advanceToNextPhase_tail ?g1 = Inr g'"
        by (simp add: advanceToNextPhase_def Let_def)
      from advanceToNextPhase_tail_Inr [OF t] two SETUP show ?thesis by auto
    next
      case SHOWDOWN
      with assms False have t: "advanceToNextPhase_tail ?g1 = Inr g'"
        by (simp add: advanceToNextPhase_def Let_def)
      from advanceToNextPhase_tail_Inr [OF t] two SHOWDOWN show ?thesis by auto
    next
      case FINISHED
      with assms False have t: "advanceToNextPhase_tail ?g1 = Inr g'"
        by (simp add: advanceToNextPhase_def Let_def)
      from advanceToNextPhase_tail_Inr [OF t] two FINISHED show ?thesis by auto
    qed
  qed
qed

lemma advanceToNextPhase_total:
  assumes len: "length (players g) = 6"
    and nf: "filter (\<lambda>p. \<not> hasFolded p) (players g) \<noteq> []"
    and pre: "PokerGame.phase g = PREFLOP \<longrightarrow> 4 \<le> length (deck g)"
    and flop: "PokerGame.phase g = FLOP \<longrightarrow> 2 \<le> length (deck g) \<and> 3 \<le> length (communityCards g)"
    and turn: "PokerGame.phase g = TURN \<longrightarrow> 2 \<le> length (deck g) \<and> 4 \<le> length (communityCards g)"
  shows "\<exists>g'. advanceToNextPhase g = Inr g'"
proof -
  let ?g1 = "g\<lparr>players := map (\<lambda>p. p\<lparr>hasActed := False, Player.currentBet := 0\<rparr>) (players g),
               currentBet := 0\<rparr>"
  let ?n = "length (filter (\<lambda>p. \<not> hasFolded p) (players g))"
  have nf1: "\<And>h. filter (\<lambda>p. \<not> hasFolded p) (players (h ?g1)) = filter (\<lambda>p. \<not> hasFolded p) (players ?g1)
      \<Longrightarrow> filter (\<lambda>p. \<not> hasFolded p) (players (h ?g1)) \<noteq> []"
    using nf by (simp add: filter_map)
  have len1: "length (players ?g1) = 6" using len by simp
  show ?thesis
  proof (cases "?n \<le> 1")
    case True
    from processHandCompletion_total [of "?g1\<lparr>phase := FINISHED\<rparr>"] nf1 [of "\<lambda>g. g\<lparr>phase := FINISHED\<rparr>"]
    show ?thesis using True by (simp add: advanceToNextPhase_def Let_def)
  next
    case False
    show ?thesis
    proof (cases "PokerGame.phase g")
      case PREFLOP
      with pre have "4 \<le> length (deck ?g1)" by simp
      from dealFlop_total [OF this] obtain g2 where d: "dealFlop ?g1 = Inr g2" by blast
      from dealFlop_Inr [OF d] len have "length (players (g2\<lparr>phase := FLOP\<rparr>)) = 6" by simp
      from advanceToNextPhase_tail_total [OF this] show ?thesis
        using False PREFLOP d by (simp add: advanceToNextPhase_def Let_def)
    next
      case FLOP
      with flop have "2 \<le> length (deck ?g1)" "3 \<le> length (communityCards ?g1)" by simp_all
      from dealTurn_total [OF this] obtain g2 where d: "dealTurn ?g1 = Inr g2" by blast
      from dealTurn_Inr [OF d] len have "length (players (g2\<lparr>phase := TURN\<rparr>)) = 6" by simp
      from advanceToNextPhase_tail_total [OF this] show ?thesis
        using False FLOP d by (simp add: advanceToNextPhase_def Let_def)
    next
      case TURN
      with turn have "2 \<le> length (deck ?g1)" "4 \<le> length (communityCards ?g1)" by simp_all
      from dealRiver_total [OF this] obtain g2 where d: "dealRiver ?g1 = Inr g2" by blast
      from dealRiver_Inr [OF d] len have "length (players (g2\<lparr>phase := RIVER\<rparr>)) = 6" by simp
      from advanceToNextPhase_tail_total [OF this] show ?thesis
        using False TURN d by (simp add: advanceToNextPhase_def Let_def)
    next
      case RIVER
      from processHandCompletion_total [of "logAction ''*** SHOWDOWN ***'' (?g1\<lparr>phase := SHOWDOWN\<rparr>)"]
        nf1 [of "\<lambda>g. logAction ''*** SHOWDOWN ***'' (g\<lparr>phase := SHOWDOWN\<rparr>)"]
      show ?thesis using False RIVER
        by (simp add: advanceToNextPhase_def Let_def processShowdown_def logAction_def)
    next
      case SETUP
      from advanceToNextPhase_tail_total [OF len1] show ?thesis
        using False SETUP by (simp add: advanceToNextPhase_def Let_def)
    next
      case SHOWDOWN
      from advanceToNextPhase_tail_total [OF len1] show ?thesis
        using False SHOWDOWN by (simp add: advanceToNextPhase_def Let_def)
    next
      case FINISHED
      from advanceToNextPhase_tail_total [OF len1] show ?thesis
        using False FINISHED by (simp add: advanceToNextPhase_def Let_def)
    qed
  qed
qed

subsection \<open>Processing an action\<close>

lemma moveToNextPlayer_InrD:
  assumes "moveToNextPlayer g = Inr g'"
  shows "\<exists>a. g' = g\<lparr>activePlayerIndex := a\<rparr>"
  using assms unfolding moveToNextPlayer_def findNextActivePlayer_def
  by (elim bindE_InrE) auto

lemma processAction_accept_Inr:
  assumes "processAction_accept gm p da desc short = Inr (ok, g')"
  shows "ok \<and> (\<exists>g4. players g4 = (players gm)[activePlayerIndex gm := p] \<and> pot g4 = pot gm \<and>
           PokerGame.currentBet g4 = PokerGame.currentBet gm \<and> PokerGame.phase g4 = PokerGame.phase gm \<and>
           initialStacks g4 = initialStacks gm \<and> communityCards g4 = communityCards gm \<and>
           deck g4 = deck gm \<and>
           (if isBettingRoundComplete g4 then advanceToNextPhase g4 = Inr g' else g' = g4))"
proof -
  from assms obtain g4 where m: "moveToNextPlayer
      ((logAction desc (gm\<lparr>players := (players gm)[activePlayerIndex gm := p]\<rparr>))
         \<lparr>gameActions := gameActions (logAction desc (gm\<lparr>players := (players gm)[activePlayerIndex gm := p]\<rparr>)) @
            [\<lparr>playerId = int (activePlayerIndex (logAction desc (gm\<lparr>players := (players gm)[activePlayerIndex gm := p]\<rparr>))),
              action = short, amount = Some da,
              phase = GamePhase_str (PokerGame.phase (logAction desc (gm\<lparr>players := (players gm)[activePlayerIndex gm := p]\<rparr>)))\<rparr>]\<rparr>) = Inr g4"
    and r: "(if isBettingRoundComplete g4 then bindE (advanceToNextPhase g4) (\<lambda>g5. Inr (True, g5))
            else Inr (True, g4)) = Inr (ok, g')"
    unfolding processAction_accept_def Let_def by (elim bindE_InrE)
  from moveToNextPlayer_InrD [OF m] obtain a where g4: "g4 = 
      ((logAction desc (gm\<lparr>players := (players gm)[activePlayerIndex gm := p]\<rparr>))
         \<lparr>gameActions := gameActions (logAction desc (gm\<lparr>players := (players gm)[activePlayerIndex gm := p]\<rparr>)) @
            [\<lparr>playerId = int (activePlayerIndex (logAction desc (gm\<lparr>players := (players gm)[activePlayerIndex gm := p]\<rparr>))),
              action = short, amount = Some da,
              phase = GamePhase_str (PokerGame.phase (logAction desc (gm\<lparr>players := (players gm)[activePlayerIndex gm := p]\<rparr>)))\<rparr>]\<rparr>)
        \<lparr>activePlayerIndex := a\<rparr>"
    by blast
  have f: "players g4 = (players gm)[activePlayerIndex gm := p]" "pot g4 = pot gm"
     "PokerGame.currentBet g4 = PokerGame.currentBet gm" "PokerGame.phase g4 = PokerGame.phase gm"
     "initialStacks g4 = initialStacks gm" "communityCards g4 = communityCards gm" "deck g4 = deck gm"
    by (simp_all add: g4 logAction_def)
  from r have "ok" and "if isBettingRoundComplete g4 then advanceToNextPhase g4 = Inr g' else g' = g4"
    by (auto split: if_splits elim!: bindE_InrE)
  with f show ?thesis by blast
qed

lemma processAction_accept_total:
  assumes len: "length (players gm) = 6"
    and nf: "filter (\<lambda>p. \<not> hasFolded p) ((players gm)[activePlayerIndex gm := p]) \<noteq> []"
    and pre: "PokerGame.phase gm = PREFLOP \<longrightarrow> 4 \<le> length (deck gm)"
    and flop: "PokerGame.phase gm = FLOP \<longrightarrow> 2 \<le> length (deck gm) \<and> 3 \<le> length (communityCards gm)"
    and turn: "PokerGame.phase gm = TURN \<longrightarrow> 2 \<le> length (deck gm) \<and> 4 \<le> length (communityCards gm)"
  shows "\<exists>g'. processAction_accept gm p da desc short = Inr (True, g')"
proof -
  let ?g3 = "((logAction desc (gm\<lparr>players := (players gm)[activePlayerIndex gm := p]\<rparr>))
         \<lparr>gameActions := gameActions (logAction desc (gm\<lparr>players := (players gm)[activePlayerIndex gm := p]\<rparr>)) @
            [\<lparr>playerId = int (activePlayerIndex (logAction desc (gm\<lparr>players := (players gm)[activePlayerIndex gm := p]\<rparr>))),
              action = short, amount = Some da,
              phase = GamePhase_str (PokerGame.phase (logAction desc (gm\<lparr>players := (players gm)[activePlayerIndex gm := p]\<rparr>)))\<rparr>]\<rparr>)"
  have len3: "length (players ?g3) = 6" using len by (simp add: logAction_def)
  from moveToNextPlayer_Inr [OF len3] obtain a where a: "moveToNextPlayer ?g3 = Inr (?g3\<lparr>activePlayerIndex := a\<rparr>)"
    by blast
  let ?g4 = "?g3\<lparr>activePlayerIndex := a\<rparr>"
  have "\<exists>g'. advanceToNextPhase ?g4 = Inr g'"
    by (rule advanceToNextPhase_total) (use len nf pre flop turn in \<open>simp_all add: logAction_def\<close>)
  then obtain g5 where g5: "advanceToNextPhase ?g4 = Inr g5" by blast
  show ?thesis
  proof (cases "isBettingRoundComplete ?g4")
    case True
    then show ?thesis
      unfolding processAction_accept_def Let_def by (simp add: a g5)
  next
    case False
    then show ?thesis
      unfolding processAction_accept_def Let_def by (simp add: a)
  qed
qed

lemma first_action_flip:
  "(if isFirstAction g then g\<lparr>isFirstAction := False\<rparr> else g) = g\<lparr>isFirstAction := False\<rparr>"
  by (cases g) simp

lemma processAction_rejected:
  assumes "processAction act amt g = Inr (False, g')"
  shows "g' = g \<or> g' = g\<lparr>isFirstAction := False\<rparr>"
  using assms unfolding processAction_def Let_def first_action_flip
  by (auto split: if_splits PlayerAction.splits option.splits prod.splits dest: processAction_accept_Inr)

lemma processAction_accepted:
  assumes "processAction act amt g = Inr (True, g')"
  shows "activePlayerIndex g < length (players g) \<and> canAct (players g ! activePlayerIndex g) \<and>
    (\<exists>p' da cb desc short.
       processAction_accept (g\<lparr>isFirstAction := False, pot := pot g + da, currentBet := cb\<rparr>)
         p' da desc short = Inr (True, g') \<and>
       (cb = PokerGame.currentBet g \<or> cb = Player.currentBet p') \<and>
       (p' = fold_player (players g ! activePlayerIndex g) \<and> da = 0 \<and> cb = PokerGame.currentBet g
        \<or> p' = check (players g ! activePlayerIndex g) \<and> da = 0 \<and> cb = PokerGame.currentBet g
        \<or> (\<exists>x. p' = snd (bet x (players g ! activePlayerIndex g)) \<and>
                da = min x (stack (players g ! activePlayerIndex g)) \<and>
                (0 < x \<or> (\<exists>a. x = a - Player.currentBet (players g ! activePlayerIndex g) \<and>
                               PokerGame.currentBet g < a \<and> PokerGame.currentBet g \<noteq> 0)))))"
proof -
  let ?p = "players g ! activePlayerIndex g"
  let ?g1 = "g\<lparr>isFirstAction := False\<rparr>"
  from assms have idx: "activePlayerIndex g < length (players g)" and can: "canAct ?p"
    unfolding processAction_def Let_def by (auto split: if_splits)
  have same: "\<And>d s. ?g1\<lparr>pot := pot g + 0, currentBet := PokerGame.currentBet g\<rparr> = ?g1"
    by simp
  have "\<exists>p' da cb desc short.
       processAction_accept (g\<lparr>isFirstAction := False, pot := pot g + da, currentBet := cb\<rparr>)
         p' da desc short = Inr (True, g') \<and>
       (cb = PokerGame.currentBet g \<or> cb = Player.currentBet p') \<and>
       (p' = fold_player ?p \<and> da = 0 \<and> cb = PokerGame.currentBet g
        \<or> p' = check ?p \<and> da = 0 \<and> cb = PokerGame.currentBet g
        \<or> (\<exists>x. p' = snd (bet x ?p) \<and> da = min x (stack ?p) \<and>
                (0 < x \<or> (\<exists>a. x = a - Player.currentBet ?p \<and>
                               PokerGame.currentBet g < a \<and> PokerGame.currentBet g \<noteq> 0))))"
  proof (cases act)
    case FOLD
    with assms idx can
    have "processAction_accept ?g1 (fold_player ?p) 0 (name ?p @ '' folds'') ''f'' = Inr (True, g')"
      unfolding processAction_def Let_def first_action_flip by simp
    then have "processAction_accept (g\<lparr>isFirstAction := False, pot := pot g + 0, currentBet := PokerGame.currentBet g\<rparr>)
         (fold_player ?p) 0 (name ?p @ '' folds'') ''f'' = Inr (True, g')"
      by simp
    then show ?thesis by blast
  next
    case CHECK
    with assms idx can
    have "processAction_accept ?g1 (check ?p) 0 (name ?p @ '' checks'') ''x'' = Inr (True, g')"
      unfolding processAction_def Let_def first_action_flip by (simp split: if_splits)
    then have "processAction_accept (g\<lparr>isFirstAction := False, pot := pot g + 0, currentBet := PokerGame.currentBet g\<rparr>)
         (check ?p) 0 (name ?p @ '' checks'') ''x'' = Inr (True, g')"
      by simp
    then show ?thesis by blast
  next
    case CALL
    let ?x = "min (PokerGame.currentBet g - Player.currentBet ?p) (stack ?p)"
    from CALL assms idx can
    have pos: "0 < PokerGame.currentBet g - Player.currentBet ?p"
      and "processAction_accept (g\<lparr>isFirstAction := False, pot := pot g + min ?x (stack ?p)\<rparr>)
             (snd (bet ?x ?p)) (min ?x (stack ?p))
             (name (snd (bet ?x ?p)) @ '' calls '' @ show_int (min ?x (stack ?p))) ''c'' = Inr (True, g')"
      unfolding processAction_def Let_def first_action_flip call_eq
      by (simp_all add: split_def split: if_splits)
    then have "processAction_accept (g\<lparr>isFirstAction := False, pot := pot g + min ?x (stack ?p),
                 currentBet := PokerGame.currentBet g\<rparr>)
             (snd (bet ?x ?p)) (min ?x (stack ?p))
             (name (snd (bet ?x ?p)) @ '' calls '' @ show_int (min ?x (stack ?p))) ''c'' = Inr (True, g')"
      by simp
    moreover have "0 < ?x" using pos can by (simp add: canAct_def)
    ultimately show ?thesis by blast
  next
    case BET
    with assms idx can obtain a where a: "amt = Some a" "BIG_BLIND \<le> a"
      and "processAction_accept (g\<lparr>isFirstAction := False, pot := pot g + min a (stack ?p),
                 currentBet := Player.currentBet (snd (bet a ?p))\<rparr>)
             (snd (bet a ?p)) (min a (stack ?p))
             (name (snd (bet a ?p)) @ '' bets '' @ show_int (min a (stack ?p)))
             (''b'' @ show_int (min a (stack ?p))) = Inr (True, g')"
      unfolding processAction_def Let_def first_action_flip
      by (cases amt) (simp_all add: split_def split: if_splits)
    moreover have "0 < a" using a(2) by (simp add: BIG_BLIND_def)
    ultimately show ?thesis by blast
  next
    case RAISE
    with assms idx can obtain a where a: "amt = Some a" "PokerGame.currentBet g < a"
      "PokerGame.currentBet g \<noteq> 0"
      and "processAction_accept (g\<lparr>isFirstAction := False,
                 pot := pot g + min (a - Player.currentBet ?p) (stack ?p),
                 currentBet := Player.currentBet (snd (bet (a - Player.currentBet ?p) ?p))\<rparr>)
             (snd (bet (a - Player.currentBet ?p) ?p)) (min (a - Player.currentBet ?p) (stack ?p))
             (name (snd (bet (a - Player.currentBet ?p) ?p)) @ '' raises to '' @
                show_int (Player.currentBet (snd (bet (a - Player.currentBet ?p) ?p))))
             (''r'' @ show_int (Player.currentBet (snd (bet (a - Player.currentBet ?p) ?p)))) = Inr (True, g')"
      unfolding processAction_def Let_def first_action_flip
      by (cases amt) (simp_all add: split_def split: if_splits)
    then show ?thesis by blast
  next
    case ALL_IN
    let ?p' = "snd (bet (stack ?p) ?p)"
    let ?cb = "if Player.currentBet ?p' > PokerGame.currentBet g then Player.currentBet ?p'
               else PokerGame.currentBet g"
    from ALL_IN assms idx can
    have "processAction_accept (g\<lparr>isFirstAction := False, pot := pot g + stack ?p, currentBet := ?cb\<rparr>)
             ?p' (stack ?p) (name ?p' @ '' goes all-in for '' @ show_int (stack ?p)) ''allin'' = Inr (True, g')"
      unfolding processAction_def Let_def first_action_flip allIn_eq
      by (simp add: split_def split: if_splits)
    then have "processAction_accept (g\<lparr>isFirstAction := False, pot := pot g + min (stack ?p) (stack ?p),
                 currentBet := ?cb\<rparr>)
             ?p' (min (stack ?p) (stack ?p)) (name ?p' @ '' goes all-in for '' @ show_int (stack ?p)) ''allin'' = Inr (True, g')"
      by simp
    moreover have "?cb = PokerGame.currentBet g \<or> ?cb = Player.currentBet ?p'" by simp
    moreover have "0 < stack ?p" using can by (simp add: canAct_def)
    ultimately show ?thesis by blast
  next
    case UNKNOWN
    with assms idx can show ?thesis
      unfolding processAction_def Let_def by simp
  qed
  with idx can show ?thesis by blast
qed

subsection \<open>Every action of a running hand returns\<close>

lemma length_filter_update_le:
  "length (filter P xs) \<le> Suc (length (filter P (xs[i := y])))"
  by (induction xs arbitrary: i) (auto split: nat.splits)

lemma nonfolded_update_nonempty:
  assumes "2 \<le> length (filter P xs)"
  shows "filter P (xs[i := y]) \<noteq> []"
proof
  assume "filter P (xs[i := y]) = []"
  then have "length (filter P (xs[i := y])) = 0" by simp
  with length_filter_update_le [of P xs i y] assms show False by simp
qed

lemma processAction_total:
  assumes len: "length (players g) = 6"
    and two: "2 \<le> length (filter (\<lambda>p. \<not> hasFolded p) (players g))"
    and pre: "PokerGame.phase g = PREFLOP \<longrightarrow> 4 \<le> length (deck g)"
    and flop: "PokerGame.phase g = FLOP \<longrightarrow> 2 \<le> length (deck g) \<and> 3 \<le> length (communityCards g)"
    and turn: "PokerGame.phase g = TURN \<longrightarrow> 2 \<le> length (deck g) \<and> 4 \<le> length (communityCards g)"
  shows "\<exists>ok g'. processAction act amt g = Inr (ok, g')"
proof -
  have acc: "\<exists>g'. processAction_accept (g\<lparr>isFirstAction := False, pot := pt, currentBet := cb\<rparr>)
                    p da desc short = Inr (True, g')" for pt cb p da desc short
    by (rule processAction_accept_total)
       (use len pre flop turn nonfolded_update_nonempty [OF two] in simp_all)
  have acc0: "\<exists>g'. processAction_accept (g\<lparr>isFirstAction := False\<rparr>) p da desc short = Inr (True, g')"
    for p da desc short
    using acc [where pt = "pot g" and cb = "PokerGame.currentBet g"] by simp
  have acc1: "\<exists>g'. processAction_accept (g\<lparr>isFirstAction := False, pot := pt\<rparr>) p da desc short = Inr (True, g')"
    for pt p da desc short
    using acc [where cb = "PokerGame.currentBet g"] by simp
  show ?thesis
  proof (cases act)
    case FOLD
    with acc0 show ?thesis
      unfolding processAction_def Let_def first_action_flip by (simp; blast)
  next
    case CHECK
    with acc0 show ?thesis
      unfolding processAction_def Let_def first_action_flip by (simp; blast)
  next
    case CALL
    with acc1 show ?thesis
      unfolding processAction_def Let_def first_action_flip by (simp add: split_def; blast)
  next
    case BET
    with acc show ?thesis
      unfolding processAction_def Let_def first_action_flip
      by (cases amt) (simp_all add: split_def, blast+)
  next
    case RAISE
    with acc show ?thesis
      unfolding processAction_def Let_def first_action_flip
      by (cases amt) (simp_all add: split_def, blast+)
  next
    case ALL_IN
    let ?p = "players g ! activePlayerIndex g"
    let ?p' = "snd (bet (stack ?p) ?p)"
    let ?cb = "if Player.currentBet ?p' > PokerGame.currentBet g then Player.currentBet ?p'
               else PokerGame.currentBet g"
    from acc [where pt = "pot g + stack ?p" and cb = ?cb and p = ?p' and da = "stack ?p"
        and desc = "name ?p' @ '' goes all-in for '' @ show_int (stack ?p)" and short = "''allin''"]
    obtain g' where "processAction_accept (g\<lparr>isFirstAction := False, pot := pot g + stack ?p, currentBet := ?cb\<rparr>)
             ?p' (stack ?p) (name ?p' @ '' goes all-in for '' @ show_int (stack ?p)) ''allin'' = Inr (True, g')"
      by blast
    with ALL_IN show ?thesis
      unfolding processAction_def Let_def first_action_flip allIn_eq
      by (auto simp: split_def split: if_splits)
  next
    case UNKNOWN
    then show ?thesis
      unfolding processAction_def Let_def by auto
  qed
qed

subsection \<open>What an accepted action changes\<close>

lemma not_complete_two:
  "\<not> isBettingRoundComplete g \<Longrightarrow> 2 \<le> length (filter (\<lambda>p. \<not> hasFolded p) (players g))"
  unfolding isBettingRoundComplete_def Let_def by (auto split: if_splits)

text \<open>
  After an accepted action the betting round stays open, or the hand is over, or the
  next street is dealt. \<open>p'\<close> is the acting seat after the action, \<open>da\<close> the chips it
  moved to the pot, \<open>cb\<close> the bet to match before the round is judged.
\<close>

lemma processAction_accepted_cases [consumes 1, case_names round_open hand_over street_dealt]:
  assumes "processAction act amt g = Inr (True, g')"
  obtains
    (round_open) p' da cb where
      "activePlayerIndex g < length (players g)" "canAct (players g ! activePlayerIndex g)"
      "cb = PokerGame.currentBet g \<or> cb = Player.currentBet p'"
      "p' = fold_player (players g ! activePlayerIndex g) \<and> da = 0 \<and> cb = PokerGame.currentBet g
        \<or> p' = check (players g ! activePlayerIndex g) \<and> da = 0 \<and> cb = PokerGame.currentBet g
        \<or> (\<exists>x. p' = snd (bet x (players g ! activePlayerIndex g)) \<and>
                da = min x (stack (players g ! activePlayerIndex g)) \<and>
                (0 < x \<or> (\<exists>a. x = a - Player.currentBet (players g ! activePlayerIndex g) \<and>
                               PokerGame.currentBet g < a \<and> PokerGame.currentBet g \<noteq> 0)))"
      "pot g' = pot g + da" "initialStacks g' = initialStacks g"
      "2 \<le> length (filter (\<lambda>p. \<not> hasFolded p) ((players g)[activePlayerIndex g := p']))"
      "players g' = (players g)[activePlayerIndex g := p']"
      "PokerGame.currentBet g' = cb" "PokerGame.phase g' = PokerGame.phase g"
      "communityCards g' = communityCards g" "deck g' = deck g"
  | (hand_over) p' da cb where
      "activePlayerIndex g < length (players g)" "canAct (players g ! activePlayerIndex g)"
      "cb = PokerGame.currentBet g \<or> cb = Player.currentBet p'"
      "p' = fold_player (players g ! activePlayerIndex g) \<and> da = 0 \<and> cb = PokerGame.currentBet g
        \<or> p' = check (players g ! activePlayerIndex g) \<and> da = 0 \<and> cb = PokerGame.currentBet g
        \<or> (\<exists>x. p' = snd (bet x (players g ! activePlayerIndex g)) \<and>
                da = min x (stack (players g ! activePlayerIndex g)) \<and>
                (0 < x \<or> (\<exists>a. x = a - Player.currentBet (players g ! activePlayerIndex g) \<and>
                               PokerGame.currentBet g < a \<and> PokerGame.currentBet g \<noteq> 0)))"
      "pot g' = pot g + da" "initialStacks g' = initialStacks g"
      "filter (\<lambda>p. \<not> hasFolded p) ((players g)[activePlayerIndex g := p']) \<noteq> []"
      "length (filter (\<lambda>p. \<not> hasFolded p) ((players g)[activePlayerIndex g := p'])) \<le> 1
       \<or> PokerGame.phase g = RIVER"
      "players g' = update_first (\<lambda>p. \<not> hasFolded p) (\<lambda>p. p\<lparr>stack := stack p + (pot g + da)\<rparr>)
                      (map (\<lambda>p. p\<lparr>hasActed := False, Player.currentBet := 0\<rparr>)
                         ((players g)[activePlayerIndex g := p']))"
      "PokerGame.currentBet g' = 0" "PokerGame.phase g' = FINISHED"
      "communityCards g' = communityCards g" "deck g' = deck g"
  | (street_dealt) p' da cb where
      "activePlayerIndex g < length (players g)" "canAct (players g ! activePlayerIndex g)"
      "cb = PokerGame.currentBet g \<or> cb = Player.currentBet p'"
      "p' = fold_player (players g ! activePlayerIndex g) \<and> da = 0 \<and> cb = PokerGame.currentBet g
        \<or> p' = check (players g ! activePlayerIndex g) \<and> da = 0 \<and> cb = PokerGame.currentBet g
        \<or> (\<exists>x. p' = snd (bet x (players g ! activePlayerIndex g)) \<and>
                da = min x (stack (players g ! activePlayerIndex g)) \<and>
                (0 < x \<or> (\<exists>a. x = a - Player.currentBet (players g ! activePlayerIndex g) \<and>
                               PokerGame.currentBet g < a \<and> PokerGame.currentBet g \<noteq> 0)))"
      "pot g' = pot g + da" "initialStacks g' = initialStacks g"
      "2 \<le> length (filter (\<lambda>p. \<not> hasFolded p) ((players g)[activePlayerIndex g := p']))"
      "players g' = map (\<lambda>p. p\<lparr>hasActed := False, Player.currentBet := 0\<rparr>)
                      ((players g)[activePlayerIndex g := p'])"
      "PokerGame.currentBet g' = 0"
      "PokerGame.phase g = PREFLOP \<and> PokerGame.phase g' = FLOP \<and>
          length (communityCards g') = length (communityCards g) + 3 \<and>
          length (deck g') + 4 = length (deck g)
        \<or> PokerGame.phase g = FLOP \<and> PokerGame.phase g' = TURN \<and>
          length (communityCards g') = length (communityCards g) + 1 \<and>
          length (deck g') + 2 = length (deck g)
        \<or> PokerGame.phase g = TURN \<and> PokerGame.phase g' = RIVER \<and>
          length (communityCards g') = length (communityCards g) + 1 \<and>
          length (deck g') + 2 = length (deck g)
        \<or> (PokerGame.phase g = SETUP \<or> PokerGame.phase g = SHOWDOWN \<or> PokerGame.phase g = FINISHED) \<and>
          PokerGame.phase g' = PokerGame.phase g \<and>
          communityCards g' = communityCards g \<and> deck g' = deck g"
proof -
  let ?p = "players g ! activePlayerIndex g"
  from processAction_accepted [OF assms]
  obtain p' da cb desc short where idx: "activePlayerIndex g < length (players g)" and can: "canAct ?p"
    and acc: "processAction_accept (g\<lparr>isFirstAction := False, pot := pot g + da, currentBet := cb\<rparr>)
         p' da desc short = Inr (True, g')"
    and cb: "cb = PokerGame.currentBet g \<or> cb = Player.currentBet p'"
    and kind: "p' = fold_player ?p \<and> da = 0 \<and> cb = PokerGame.currentBet g
        \<or> p' = check ?p \<and> da = 0 \<and> cb = PokerGame.currentBet g
        \<or> (\<exists>x. p' = snd (bet x ?p) \<and> da = min x (stack ?p) \<and>
                (0 < x \<or> (\<exists>a. x = a - Player.currentBet ?p \<and>
                               PokerGame.currentBet g < a \<and> PokerGame.currentBet g \<noteq> 0)))"
    by blast
  let ?ps4 = "(players g)[activePlayerIndex g := p']"
  from processAction_accept_Inr [OF acc]
  obtain g4 where g4: "players g4 = ?ps4" "pot g4 = pot g + da" "PokerGame.currentBet g4 = cb"
      "PokerGame.phase g4 = PokerGame.phase g" "initialStacks g4 = initialStacks g"
      "communityCards g4 = communityCards g" "deck g4 = deck g"
    and fin: "if isBettingRoundComplete g4 then advanceToNextPhase g4 = Inr g' else g' = g4"
    by auto
  show thesis
  proof (cases "isBettingRoundComplete g4")
    case False
    with fin have eq: "g' = g4" by simp
    show thesis
      by (rule round_open [of cb p' da])
         (use idx can cb kind not_complete_two [OF False] g4 in \<open>simp_all add: eq\<close>)
  next
    case True
    with fin have "advanceToNextPhase g4 = Inr g'" by simp
    note adv = advanceToNextPhase_Inr [OF this, unfolded g4]
    from adv [THEN conjunct2, THEN conjunct2, THEN conjunct2, THEN conjunct2]
    show thesis
    proof (rule disjE)
      assume a: "PokerGame.phase g' = FINISHED \<and>
        (length (filter (\<lambda>p. \<not> hasFolded p) ?ps4) \<le> 1 \<or> PokerGame.phase g = RIVER) \<and>
        players g' = update_first (\<lambda>p. \<not> hasFolded p) (\<lambda>p. p\<lparr>stack := stack p + (pot g + da)\<rparr>)
                       (map (\<lambda>p. p\<lparr>hasActed := False, Player.currentBet := 0\<rparr>) ?ps4) \<and>
        communityCards g' = communityCards g \<and> deck g' = deck g"
      show thesis
        apply (rule hand_over [of cb p' da])
                     apply (rule idx)
                    apply (rule can)
                   apply (rule cb)
                  apply (rule kind)
                 apply (rule adv [THEN conjunct1])
                apply (rule adv [THEN conjunct2, THEN conjunct2, THEN conjunct1])
               apply (rule adv [THEN conjunct2, THEN conjunct2, THEN conjunct2, THEN conjunct1])
              apply (rule a [THEN conjunct2, THEN conjunct1])
             apply (rule a [THEN conjunct2, THEN conjunct2, THEN conjunct1])
            apply (rule adv [THEN conjunct2, THEN conjunct1])
           apply (rule a [THEN conjunct1])
          apply (rule a [THEN conjunct2, THEN conjunct2, THEN conjunct2, THEN conjunct1])
         apply (rule a [THEN conjunct2, THEN conjunct2, THEN conjunct2, THEN conjunct2])
        done
    next
      assume a: "2 \<le> length (filter (\<lambda>p. \<not> hasFolded p) ?ps4) \<and>
       players g' = map (\<lambda>p. p\<lparr>hasActed := False, Player.currentBet := 0\<rparr>) ?ps4 \<and>
       (PokerGame.phase g = PREFLOP \<and> PokerGame.phase g' = FLOP \<and>
          length (communityCards g') = length (communityCards g) + 3 \<and>
          length (deck g') + 4 = length (deck g)
        \<or> PokerGame.phase g = FLOP \<and> PokerGame.phase g' = TURN \<and>
          length (communityCards g') = length (communityCards g) + 1 \<and>
          length (deck g') + 2 = length (deck g)
        \<or> PokerGame.phase g = TURN \<and> PokerGame.phase g' = RIVER \<and>
          length (communityCards g') = length (communityCards g) + 1 \<and>
          length (deck g') + 2 = length (deck g)
        \<or> (PokerGame.phase g = SETUP \<or> PokerGame.phase g = SHOWDOWN \<or> PokerGame.phase g = FINISHED) \<and>
          PokerGame.phase g' = PokerGame.phase g \<and>
          communityCards g' = communityCards g \<and> deck g' = deck g)"
      show thesis
        apply (rule street_dealt [of cb p' da])
                  apply (rule idx)
                 apply (rule can)
                apply (rule cb)
               apply (rule kind)
              apply (rule adv [THEN conjunct1])
             apply (rule adv [THEN conjunct2, THEN conjunct2, THEN conjunct1])
            apply (rule a [THEN conjunct1])
           apply (rule a [THEN conjunct2, THEN conjunct1])
          apply (rule adv [THEN conjunct2, THEN conjunct1])
         apply (rule a [THEN conjunct2, THEN conjunct2])
        done
    qed
  qed
qed

subsection \<open>Invariants are kept by every action\<close>

lemma processAction_length:
  assumes "processAction act amt g = Inr (ok, g')"
  shows "length (players g') = length (players g)"
proof (cases ok)
  case False
  with processAction_rejected [of act amt g g'] assms show ?thesis by auto
next
  case True
  with assms have "processAction act amt g = Inr (True, g')" by simp
  then show ?thesis
    by (cases rule: processAction_accepted_cases) simp_all
qed

lemma processAction_initialStacks:
  assumes "processAction act amt g = Inr (ok, g')"
  shows "initialStacks g' = initialStacks g"
proof (cases ok)
  case False
  with processAction_rejected [of act amt g g'] assms show ?thesis by auto
next
  case True
  with assms have "processAction act amt g = Inr (True, g')" by simp
  then show ?thesis
    by (cases rule: processAction_accepted_cases) simp_all
qed

lemma processAction_seats_inv:
  assumes "processAction act amt g = Inr (ok, g')" and "seats_inv g"
  shows "seats_inv g'"
proof (cases ok)
  case False
  with processAction_rejected [of act amt g g'] assms show ?thesis
    by (auto simp: seats_inv_def)
next
  case True
  with assms have r: "processAction act amt g = Inr (True, g')" by simp
  have len: "length (players g') = 6"
    using processAction_length [OF assms(1)] assms(2) by (simp add: seats_inv_def)
  from r have "PokerGame.phase g' = FINISHED \<or> 2 \<le> length (filter (\<lambda>p. \<not> hasFolded p) (players g'))"
    by (cases rule: processAction_accepted_cases) (simp_all add: filter_map)
  with len show ?thesis by (auto simp: seats_inv_def)
qed

lemma processAction_cards_inv:
  assumes "processAction act amt g = Inr (ok, g')" and "cards_inv g" and "PokerGame.phase g \<noteq> FINISHED"
  shows "cards_inv g'"
proof (cases ok)
  case False
  with processAction_rejected [of act amt g g'] assms show ?thesis
    by (auto simp: cards_inv_def split: GamePhase.splits)
next
  case True
  with assms have r: "processAction act amt g = Inr (True, g')" by simp
  then show ?thesis
  proof (cases rule: processAction_accepted_cases)
    case (round_open p' da cb)
    from round_open(10,11,12) assms(2) show ?thesis
      by (cases "PokerGame.phase g") (simp_all add: cards_inv_def)
  next
    case (hand_over p' da cb)
    from hand_over(11,12) assms(2,3) show ?thesis
      by (cases "PokerGame.phase g") (simp_all add: cards_inv_def)
  next
    case (street_dealt p' da cb)
    from street_dealt(10) assms(2,3) show ?thesis
      by (elim disjE conjE) (simp_all add: cards_inv_def)
  qed
qed

lemma seat_after_stack:
  assumes "p' = fold_player p \<and> da = 0 \<and> cb = c
        \<or> p' = check p \<and> da = 0 \<and> cb = c
        \<or> (\<exists>x. p' = snd (bet x p) \<and> da = min x (stack p) \<and> Q x)"
  shows "stack p' = stack p - da" and "totalBetThisHand p' = totalBetThisHand p + da"
  using assms by (auto simp: fold_player_def check_def)

lemma processAction_chips_inv:
  assumes "processAction act amt g = Inr (ok, g')" and "chips_inv st g" and "PokerGame.phase g \<noteq> FINISHED"
  shows "chips_inv st g'"
proof (cases ok)
  case False
  with processAction_rejected [of act amt g g'] assms show ?thesis
    by (auto simp: chips_inv_def)
next
  case True
  with assms have r: "processAction act amt g = Inr (True, g')" by simp
  let ?p = "players g ! activePlayerIndex g"
  let ?reset = "\<lambda>p. p\<lparr>hasActed := False, Player.currentBet := 0\<rparr>"
  from assms(2,3) have inv: "initialStacks g = st" "pot g + sum_list (map stack (players g)) = sum_list st"
    by (simp_all add: chips_inv_def)
  have s4: "sum_list (map stack ((players g)[activePlayerIndex g := p'])) =
            sum_list (map stack (players g)) - da"
    if "activePlayerIndex g < length (players g)" and "stack p' = stack ?p - da" for p' da
    using that by (simp add: sum_list_map_update)
  have sr: "sum_list (map stack (map ?reset ps)) = sum_list (map stack ps)" for ps
    by (simp add: o_def)
  from r show ?thesis
  proof (cases rule: processAction_accepted_cases)
    case (round_open p' da cb)
    note s = s4 [OF round_open(1) seat_after_stack(1) [OF round_open(4)]]
    from round_open(5,6,8,10) assms(3) inv s show ?thesis
      by (simp add: chips_inv_def)
  next
    case (hand_over p' da cb)
    note s = s4 [OF hand_over(1) seat_after_stack(1) [OF hand_over(4)]]
    from hand_over(7) have ne': "filter (\<lambda>p. \<not> hasFolded p)
        (map ?reset ((players g)[activePlayerIndex g := p'])) \<noteq> []"
      by (simp add: filter_map)
    have "sum_list (map stack (players g')) =
          sum_list (map stack ((players g)[activePlayerIndex g := p'])) + (pot g + da)"
      unfolding hand_over(9) sum_stack_update_first [OF ne'] sr by simp
    with hand_over(6,11) inv s show ?thesis
      by (simp add: chips_inv_def)
  next
    case (street_dealt p' da cb)
    note s = s4 [OF street_dealt(1) seat_after_stack(1) [OF street_dealt(4)]]
    from street_dealt(10) assms(3) have "PokerGame.phase g' \<noteq> FINISHED"
      by auto
    moreover have "sum_list (map stack (players g')) =
          sum_list (map stack ((players g)[activePlayerIndex g := p']))"
      unfolding street_dealt(8) by (rule sr)
    ultimately show ?thesis
      using street_dealt(5,6) inv s by (simp add: chips_inv_def)
  qed
qed

lemma set_update_first:
  "q \<in> set (update_first P f xs) \<Longrightarrow> q \<in> set xs \<or> (\<exists>x\<in>set xs. q = f x)"
  by (induction xs) (auto split: if_splits)

lemma seat_after_nonneg:
  assumes kind: "p' = fold_player p \<and> da = 0 \<and> cb = c
        \<or> p' = check p \<and> da = 0 \<and> cb = c
        \<or> (\<exists>x. p' = snd (bet x p) \<and> da = min x (stack p) \<and>
                (0 < x \<or> (\<exists>a. x = a - Player.currentBet p \<and> c < a \<and> c \<noteq> 0)))"
    and p: "0 \<le> stack p" "0 \<le> Player.currentBet p" "Player.currentBet p \<le> totalBetThisHand p"
    and c: "0 \<le> c"
  shows "0 \<le> stack p' \<and> 0 \<le> Player.currentBet p' \<and> Player.currentBet p' \<le> totalBetThisHand p'"
  using kind
proof (elim disjE conjE exE)
  assume "p' = fold_player p"
  with p show ?thesis by (simp add: fold_player_def)
next
  assume "p' = check p"
  with p show ?thesis by (simp add: check_def)
next
  fix x assume "p' = snd (bet x p)" "0 < x"
  with p show ?thesis by simp
next
  fix x a assume "p' = snd (bet x p)" "x = a - Player.currentBet p" "c < a"
  with p c show ?thesis by simp
qed

lemma processAction_nonneg_inv:
  assumes "processAction act amt g = Inr (ok, g')" and inv: "nonneg_inv g"
  shows "nonneg_inv g'"
proof (cases ok)
  case False
  with processAction_rejected [of act amt g g'] assms show ?thesis
    by (auto simp: nonneg_inv_def)
next
  case True
  with assms have r: "processAction act amt g = Inr (True, g')" by simp
  let ?p = "players g ! activePlayerIndex g"
  let ?reset = "\<lambda>p. p\<lparr>hasActed := False, Player.currentBet := 0\<rparr>"
  let ?Q = "\<lambda>p. 0 \<le> stack p \<and> 0 \<le> Player.currentBet p \<and> Player.currentBet p \<le> totalBetThisHand p"
  from inv have all: "\<forall>p\<in>set (players g). ?Q p" and cb0: "0 \<le> PokerGame.currentBet g"
    and pot: "pot g = sum_list (map totalBetThisHand (players g))"
    by (simp_all add: nonneg_inv_def)
  have mid: "(\<forall>q\<in>set ((players g)[activePlayerIndex g := p']). ?Q q) \<and> 0 \<le> cb \<and>
             pot g + da = sum_list (map totalBetThisHand ((players g)[activePlayerIndex g := p']))"
    if idx: "activePlayerIndex g < length (players g)"
      and cb: "cb = PokerGame.currentBet g \<or> cb = Player.currentBet p'"
      and kind: "p' = fold_player ?p \<and> da = 0 \<and> cb = PokerGame.currentBet g
        \<or> p' = check ?p \<and> da = 0 \<and> cb = PokerGame.currentBet g
        \<or> (\<exists>x. p' = snd (bet x ?p) \<and> da = min x (stack ?p) \<and>
                (0 < x \<or> (\<exists>a. x = a - Player.currentBet ?p \<and>
                               PokerGame.currentBet g < a \<and> PokerGame.currentBet g \<noteq> 0)))"
    for p' da cb
  proof -
    from idx all have Qp: "?Q ?p" by simp
    from seat_after_nonneg [OF kind _ _ _ cb0] Qp have Qp': "?Q p'" by blast
    have "\<forall>q\<in>set ((players g)[activePlayerIndex g := p']). ?Q q"
      using all Qp' set_update_subset_insert [of "players g" "activePlayerIndex g" p'] by blast
    moreover have "0 \<le> cb" using cb cb0 Qp' by auto
    moreover have "pot g + da = sum_list (map totalBetThisHand ((players g)[activePlayerIndex g := p']))"
      using idx seat_after_stack(2) [OF kind] pot by (simp add: sum_list_map_update)
    ultimately show ?thesis by blast
  qed
  from r show ?thesis
  proof (cases rule: processAction_accepted_cases)
    case (round_open p' da cb)
    from mid [OF round_open(1,3,4)] round_open(5,8,9) show ?thesis
      by (simp add: nonneg_inv_def)
  next
    case (street_dealt p' da cb)
    note m = mid [OF street_dealt(1,3,4)]
    have "sum_list (map totalBetThisHand (players g')) =
          sum_list (map totalBetThisHand ((players g)[activePlayerIndex g := p']))"
      unfolding street_dealt(8) by (simp add: o_def)
    moreover have "\<forall>q\<in>set (players g'). ?Q q"
      unfolding street_dealt(8) using m by auto
    ultimately show ?thesis
      using m street_dealt(5,9) by (simp add: nonneg_inv_def)
  next
    case (hand_over p' da cb)
    note m = mid [OF hand_over(1,3,4)]
    let ?ps4 = "(players g)[activePlayerIndex g := p']"
    have tot: "sum_list (map totalBetThisHand (players g')) = sum_list (map totalBetThisHand ?ps4)"
      unfolding hand_over(9) by (simp add: map_update_first_same o_def)
    have "0 \<le> sum_list (map totalBetThisHand ?ps4)"
      using m by (intro sum_list_nonneg) auto
    with m have pot0: "0 \<le> pot g + da" by simp
    have "\<forall>q\<in>set (players g'). ?Q q"
    proof
      fix q assume "q \<in> set (players g')"
      then have "q \<in> set (map ?reset ?ps4) \<or>
                 (\<exists>x\<in>set (map ?reset ?ps4). q = x\<lparr>stack := stack x + (pot g + da)\<rparr>)"
        unfolding hand_over(9) by (rule set_update_first)
      with m pot0 show "?Q q" by auto
    qed
    with tot m hand_over(5,10) show ?thesis
      by (simp add: nonneg_inv_def)
  qed
qed

subsection \<open>The state a hand starts in\<close>

lemma strip_eq_maps:
  fixes ps ps' :: "Player list"
  assumes "map (\<lambda>p. p\<lparr>holeCards := []\<rparr>) ps' = map (\<lambda>p. p\<lparr>holeCards := []\<rparr>) ps"
  shows "map stack ps' = map stack ps" and "map hasFolded ps' = map hasFolded ps"
    and "map Player.currentBet ps' = map Player.currentBet ps"
    and "map totalBetThisHand ps' = map totalBetThisHand ps"
    and "map isAllIn ps' = map isAllIn ps"
proof -
  have *: "map (\<lambda>p. f (p\<lparr>holeCards := []\<rparr>)) ps' = map (\<lambda>p. f (p\<lparr>holeCards := []\<rparr>)) ps"
    for f :: "Player \<Rightarrow> 'b"
    using arg_cong [OF assms, of "map f"] by (simp add: o_def)
  from * [of stack] show "map stack ps' = map stack ps" by simp
  from * [of hasFolded] show "map hasFolded ps' = map hasFolded ps" by simp
  from * [of Player.currentBet] show "map Player.currentBet ps' = map Player.currentBet ps" by simp
  from * [of totalBetThisHand] show "map totalBetThisHand ps' = map totalBetThisHand ps" by simp
  from * [of isAllIn] show "map isAllIn ps' = map isAllIn ps" by simp
qed

lemma maps_eq_all:
  assumes s: "map stack ps' = map stack ps" and c: "map Player.currentBet ps' = map Player.currentBet ps"
    and t: "map totalBetThisHand ps' = map totalBetThisHand ps"
    and all: "\<forall>p\<in>set ps. Q (stack p) (Player.currentBet p) (totalBetThisHand p)"
  shows "\<forall>p\<in>set ps'. Q (stack p) (Player.currentBet p) (totalBetThisHand p)"
proof
  fix p assume "p \<in> set ps'"
  then obtain i where i: "i < length ps'" "p = ps' ! i" by (auto simp: in_set_conv_nth)
  from s have len: "length ps' = length ps" by (metis length_map)
  from i len have "stack p = stack (ps ! i)"
    using arg_cong [OF s, of "\<lambda>xs. xs ! i"] by simp
  moreover from i len have "Player.currentBet p = Player.currentBet (ps ! i)"
    using arg_cong [OF c, of "\<lambda>xs. xs ! i"] by simp
  moreover from i len have "totalBetThisHand p = totalBetThisHand (ps ! i)"
    using arg_cong [OF t, of "\<lambda>xs. xs ! i"] by simp
  moreover from i len all have "Q (stack (ps ! i)) (Player.currentBet (ps ! i)) (totalBetThisHand (ps ! i))"
    by simp
  ultimately show "Q (stack p) (Player.currentBet p) (totalBetThisHand p)" by simp
qed

lemma postBlinds_indices:
  assumes "postBlinds g = Inr g'"
  shows "smallBlindIndex g < length (players g)" and "bigBlindIndex g < length (players g)"
proof -
  from assms show sb: "smallBlindIndex g < length (players g)"
    by (auto simp: postBlinds_def getPlayer_def elim!: bindE_InrE split: if_splits)
  from assms sb show "bigBlindIndex g < length (players g)"
    by (auto simp: postBlinds_def getPlayer_def Let_def split_def elim!: bindE_InrE split: if_splits)
qed

lemma postBlinds_hasFolded:
  assumes "postBlinds g = Inr g'"
  shows "map hasFolded (players g') = map hasFolded (players g)"
  using assms postBlinds_indices [OF assms]
  unfolding postBlinds_Inr [OF postBlinds_indices [OF assms]]
  by (auto simp: map_update_same nth_list_update)

lemma postBlinds_nonneg:
  assumes r: "postBlinds g = Inr g'"
    and all: "\<forall>p\<in>set (players g). 0 \<le> stack p \<and> 0 \<le> Player.currentBet p \<and>
                Player.currentBet p \<le> totalBetThisHand p"
    and pot: "pot g = sum_list (map totalBetThisHand (players g))"
  shows "nonneg_inv g'"
proof -
  note idx = postBlinds_indices [OF r]
  let ?Q = "\<lambda>p. 0 \<le> stack p \<and> 0 \<le> Player.currentBet p \<and> Player.currentBet p \<le> totalBetThisHand p"
  let ?sb = "snd (bet SMALL_BLIND (players g ! smallBlindIndex g))"
  let ?ps1 = "(players g)[smallBlindIndex g := ?sb]"
  let ?bb = "snd (bet BIG_BLIND (?ps1 ! bigBlindIndex g))"
  have step: "?Q (snd (bet x p))" if "?Q p" "0 \<le> x" for x p
    using that by simp
  have Q1: "\<forall>p\<in>set ?ps1. ?Q p"
    using all idx step [of "players g ! smallBlindIndex g" SMALL_BLIND]
      set_update_subset_insert [of "players g" "smallBlindIndex g" ?sb]
    by (auto simp: SMALL_BLIND_def)
  have Q2: "\<forall>p\<in>set (?ps1[bigBlindIndex g := ?bb]). ?Q p"
    using Q1 idx step [of "?ps1 ! bigBlindIndex g" BIG_BLIND]
      set_update_subset_insert [of ?ps1 "bigBlindIndex g" ?bb]
    by (auto simp: BIG_BLIND_def)
  have tot: "pot g' = sum_list (map totalBetThisHand (players g'))"
    using r idx pot unfolding postBlinds_Inr [OF idx]
    by (auto simp: sum_list_map_update nth_list_update)
  from r Q2 tot show ?thesis
    unfolding postBlinds_Inr [OF idx] by (auto simp: nonneg_inv_def BIG_BLIND_def)
qed

lemma startNewHand_Inr_facts:
  assumes len: "length (players g) = 6" and r: "startNewHand hid rnd g = Inr g'"
  shows "seats_inv g'" and "cards_inv g'"
    and "pot g' + sum_list (map stack (players g')) = sum_list (map stack (players g))"
    and "initialStacks g' = initialStacks g" and "PokerGame.phase g' = PREFLOP"
    and "\<forall>p\<in>set (players g). 0 \<le> stack p \<Longrightarrow> nonneg_inv g'"
proof -
  have funded: "\<exists>p\<in>set (players g). stack p \<noteq> 0"
    using startNewHand_broke [OF len, of hid rnd] r by auto
  from startNewHand_funded [OF len funded, of hid rnd] r
  obtain g1 g2 where g1: "resetForNewHand hid rnd g = Inr g1" and g2: "postBlinds g1 = Inr g2"
    and ps1: "players g1 = map reset (players g)" and pot1: "pot g1 = 0"
    and len': "length (players g') = 6" and dk: "length (deck g') = 40"
    and strip: "map (\<lambda>p. p\<lparr>holeCards := []\<rparr>) (players g') = map (\<lambda>p. p\<lparr>holeCards := []\<rparr>) (players g2)"
    and shape: "g' = g2\<lparr>deck := deck g', players := players g', phase := PREFLOP,
                   activePlayerIndex := activePlayerIndex g', actionLog := actionLog g'\<rparr>"
    and shape2: "g2 = g\<lparr>handId := hid, deck := Deck_reset rnd, communityCards := [], pot := pot g2,
                  currentBet := BIG_BLIND, actionLog := [], gameActions := [], phase := SETUP,
                  isFirstAction := True, players := players g2,
                  dealerIndex := dealerIndex g2, smallBlindIndex := smallBlindIndex g2,
                  bigBlindIndex := bigBlindIndex g2\<rparr>"
    by auto
  note m = strip_eq_maps [OF strip]
  have ph: "PokerGame.phase g' = PREFLOP" by (subst shape) simp
  have cc: "communityCards g' = []" by (subst shape, subst shape2) simp
  have pt: "pot g' = pot g2" by (subst shape) simp
  have cb: "PokerGame.currentBet g' = BIG_BLIND" by (subst shape, subst shape2) simp
  show "initialStacks g' = initialStacks g" by (subst shape, subst shape2) simp
  show "PokerGame.phase g' = PREFLOP" by (rule ph)
  show "cards_inv g'" by (simp add: cards_inv_def ph cc dk)
  have "map hasFolded (players g') = map hasFolded (map reset (players g))"
    using m(2) postBlinds_hasFolded [OF g2] ps1 by simp
  then have "set (map hasFolded (players g')) \<subseteq> {False}"
    by (auto simp: reset_def)
  then have "\<forall>p\<in>set (players g'). \<not> hasFolded p"
    by auto
  then have "filter (\<lambda>p. \<not> hasFolded p) (players g') = players g'"
    by simp
  with len' show "seats_inv g'" by (simp add: seats_inv_def)
  have "pot g2 + sum_list (map stack (players g2)) = pot g1 + sum_list (map stack (players g1))"
    by (rule postBlinds_chips [OF g2])
  then show "pot g' + sum_list (map stack (players g')) = sum_list (map stack (players g))"
    by (simp add: pt m(1) pot1 ps1 o_def)
  show "nonneg_inv g'" if nn: "\<forall>p\<in>set (players g). 0 \<le> stack p"
  proof -
    have "nonneg_inv g2"
      by (rule postBlinds_nonneg [OF g2]) (use nn in \<open>auto simp: ps1 pot1 reset_def o_def\<close>)
    then have a: "\<forall>p\<in>set (players g2). 0 \<le> stack p \<and> 0 \<le> Player.currentBet p \<and>
                Player.currentBet p \<le> totalBetThisHand p"
      and b: "pot g2 = sum_list (map totalBetThisHand (players g2))"
      by (simp_all add: nonneg_inv_def)
    from maps_eq_all [OF m(1) m(3) m(4), of "\<lambda>s c t. 0 \<le> s \<and> 0 \<le> c \<and> c \<le> t"] a
    have "\<forall>p\<in>set (players g'). 0 \<le> stack p \<and> 0 \<le> Player.currentBet p \<and>
                Player.currentBet p \<le> totalBetThisHand p"
      by simp
    with b show ?thesis
      by (simp add: nonneg_inv_def pt m(4) cb BIG_BLIND_def)
  qed
qed

subsection \<open>Reachable engines and running hands\<close>

lemma reachable_length: "reachable g \<Longrightarrow> length (players g) = 6"
proof (induction rule: reachable.induct)
  case (reachable_new rnd)
  show ?case by (simp add: PokerGame_new_def initializePlayers_def)
next
  case (reachable_stacks g stacks g')
  then show ?case by (simp add: setPlayerStacks_Inr_iff)
next
  case (reachable_start g hid rnd g')
  from startNewHand_Inr_facts(1) [OF reachable_start.IH reachable_start.hyps(2)]
  show ?case by (simp add: seats_inv_def)
next
  case (reachable_action g act amt ok g')
  with processAction_length [OF reachable_action.hyps(2)] show ?case by simp
qed

lemma setPlayerStacks_stacks:
  assumes "length (players g) = 6" and "setPlayerStacks stacks g = Inr g'"
  shows "map stack (players g') = stacks" and "initialStacks g' = stacks" and "length (players g') = 6"
proof -
  from assms have len: "length stacks = 6"
    and g': "g' = g\<lparr>initialStacks := stacks,
                players := map (\<lambda>(p, s). p\<lparr>stack := s\<rparr>) (zip (players g) stacks)\<rparr>"
    by (simp_all add: setPlayerStacks_Inr_iff)
  from len assms(1) show "map stack (players g') = stacks"
    unfolding g' by (simp add: list_eq_iff_nth_eq)
  show "initialStacks g' = stacks" unfolding g' by simp
  from len assms(1) show "length (players g') = 6" unfolding g' by simp
qed

lemma in_hand_inv: "in_hand st g \<Longrightarrow> seats_inv g \<and> cards_inv g \<and> chips_inv st g"
proof (induction rule: in_hand.induct)
  case (in_hand_start g0 stacks g1 hid rnd g)
  note s = setPlayerStacks_stacks [OF reachable_length [OF in_hand_start(1)] in_hand_start(2)]
  note f = startNewHand_Inr_facts [OF s(3) in_hand_start(3)]
  from f(1,2,3,4,5) s(1,2) show ?case
    by (simp add: chips_inv_def)
next
  case (in_hand_action stacks g act amt ok g')
  with processAction_seats_inv [OF in_hand_action(3)] processAction_cards_inv [OF in_hand_action(3)]
    processAction_chips_inv [OF in_hand_action(3)]
  show ?case by blast
qed

lemma in_hand_nonneg: "in_hand st g \<Longrightarrow> \<forall>s\<in>set st. 0 \<le> s \<Longrightarrow> nonneg_inv g"
proof (induction rule: in_hand.induct)
  case (in_hand_start g0 stacks g1 hid rnd g)
  note s = setPlayerStacks_stacks [OF reachable_length [OF in_hand_start(1)] in_hand_start(2)]
  have "\<forall>p\<in>set (players g1). 0 \<le> stack p"
    using in_hand_start(4) s(1) by (metis (no_types, lifting) image_eqI list.set_map)
  from startNewHand_Inr_facts(6) [OF s(3) in_hand_start(3) this] show ?case .
next
  case (in_hand_action stacks g act amt ok g')
  with processAction_nonneg_inv [OF in_hand_action(3)] show ?case by blast
qed

lemma in_hand_total:
  assumes "in_hand st g" and "PokerGame.phase g \<noteq> FINISHED"
  shows "\<exists>ok g'. processAction act amt g = Inr (ok, g')"
proof -
  from in_hand_inv [OF assms(1)] have s: "seats_inv g" and c: "cards_inv g" by simp_all
  show ?thesis
    by (rule processAction_total)
       (use s c assms(2) in \<open>auto simp: seats_inv_def cards_inv_def\<close>)
qed

subsection \<open>Concrete scenarios\<close>

lemma new_table_reachable: "new_table st = Inr g \<Longrightarrow> reachable g"
  unfolding new_table_def
  by (elim bindE_InrE) (blast intro: reachable.intros)

lemma new_table_in_hand: "new_table st = Inr g \<Longrightarrow> in_hand st g"
  unfolding new_table_def
  by (elim bindE_InrE) (blast intro: in_hand_start reachable_new)

lemma play_in_hand:
  "in_hand st g \<Longrightarrow> live_play acts g \<Longrightarrow> \<exists>g'. play acts g = Inr g' \<and> in_hand st g'"
proof (induction acts arbitrary: g)
  case Nil
  then show ?case by simp
next
  case (Cons a acts)
  obtain act amt where a: "a = (act, amt)" by (cases a)
  from Cons.prems(2) a obtain ok g1 where live: "PokerGame.phase g \<noteq> FINISHED"
    and r: "processAction act amt g = Inr (ok, g1)" and rest: "live_play acts g1"
    by (auto split: sum.splits)
  from in_hand_action [OF Cons.prems(1) live r] have "in_hand st g1" .
  from Cons.IH [OF this rest] r a show ?case by simp
qed

lemma in_hand_reachable: "in_hand st g \<Longrightarrow> reachable g"
  by (induction rule: in_hand.induct) (blast intro: reachable.intros)+

lemma sum_collapse_Inr: "\<not> isl r \<Longrightarrow> r = Inr (projr r)"
  by (cases r) simp_all

lemma table_1000_in_hand: "in_hand [1000, 1000, 1000, 1000, 1000, 1000] table_1000"
proof -
  have "\<not> isl (new_table [1000, 1000, 1000, 1000, 1000, 1000])" by code_simp
  from new_table_in_hand [OF sum_collapse_Inr [OF this]] show ?thesis
    by (simp add: table_1000_def)
qed

lemma table_folded_in_hand: "in_hand [1000, 1000, 1000, 1000, 1000, 1000] table_folded"
proof -
  have "live_play five_folds table_1000" by code_simp
  from play_in_hand [OF table_1000_in_hand this] show ?thesis
    by (auto simp: table_folded_def)
qed

lemma table_folded_result:
  "PokerGame.phase table_folded = FINISHED" "pot table_folded = 60"
  "sum_list (map stack (players table_folded)) = 6000"
  "initialStacks table_folded = [1000, 1000, 1000, 1000, 1000, 1000]"
  "length (communityCards table_folded) = 0"
proof -
  have "(PokerGame.phase table_folded, pot table_folded, sum_list (map stack (players table_folded)),
         initialStacks table_folded, length (communityCards table_folded)) =
        (FINISHED, 60, 6000, [1000, 1000, 1000, 1000, 1000, 1000], 0)"
    by code_simp
  then show "PokerGame.phase table_folded = FINISHED" "pot table_folded = 60"
    "sum_list (map stack (players table_folded)) = 6000"
    "initialStacks table_folded = [1000, 1000, 1000, 1000, 1000, 1000]"
    "length (communityCards table_folded) = 0"
    by simp_all
qed

text \<open>
  C1, as amended: while a hand runs (an action processed before the hand is FINISHED
  leaves it running), pot + the sum of the six stacks equals the sum of the starting
  stacks, and every further action returns; once an action has finished the hand the pot
  has been paid to a seat, the sum of the six stacks alone equals the sum of the starting
  stacks, and the field pot still holds the amount paid.
\<close>

theorem chip_conservation:
  assumes "in_hand st g"
  shows "initialStacks g = st \<and>
         (PokerGame.phase g \<noteq> FINISHED \<longrightarrow>
            pot g + sum_list (map stack (players g)) = sum_list (initialStacks g) \<and>
            (\<forall>act amt. \<exists>ok g'. processAction act amt g = Inr (ok, g'))) \<and>
         (PokerGame.phase g = FINISHED \<longrightarrow>
            sum_list (map stack (players g)) = sum_list (initialStacks g))"
proof -
  from in_hand_inv [OF assms] have "chips_inv st g" by simp
  then have "initialStacks g = st" and "PokerGame.phase g \<noteq> FINISHED \<longrightarrow>
            pot g + sum_list (map stack (players g)) = sum_list (initialStacks g)"
    and "PokerGame.phase g = FINISHED \<longrightarrow>
            sum_list (map stack (players g)) = sum_list (initialStacks g)"
    by (simp_all add: chips_inv_def split: if_splits)
  moreover have "PokerGame.phase g \<noteq> FINISHED \<longrightarrow>
      (\<forall>act amt. \<exists>ok g'. processAction act amt g = Inr (ok, g'))"
    using in_hand_total [OF assms] by blast
  ultimately show ?thesis by blast
qed

theorem chip_conservation_witness:
  "in_hand [1000, 1000, 1000, 1000, 1000, 1000] table_folded \<and>
   PokerGame.phase table_folded = FINISHED \<and>
   sum_list (map stack (players table_folded)) = sum_list (initialStacks table_folded)"
  using chip_conservation [OF table_folded_in_hand] table_folded_in_hand table_folded_result(1)
  by simp

theorem chip_conservation_counterexample:
  "\<not> (\<forall>st g. in_hand st g \<longrightarrow>
        pot g + sum_list (map stack (players g)) = sum_list (initialStacks g))"
proof
  assume "\<forall>st g. in_hand st g \<longrightarrow>
        pot g + sum_list (map stack (players g)) = sum_list (initialStacks g)"
  with table_folded_in_hand
  have "pot table_folded + sum_list (map stack (players table_folded)) =
        sum_list (initialStacks table_folded)"
    by blast
  then show False
    by (simp add: table_folded_result)
qed

subsection \<open>The blinds and the first seat to act when every seat is funded\<close>

lemma findNextPlayerWithChips_next:
  assumes "0 < length ps" and "stack (ps ! ((from + 1) mod length ps)) \<noteq> 0"
  shows "findNextPlayerWithChips from ps = Inr ((from + 1) mod length ps)"
proof -
  have "(from + 1) mod length ps < length ps"
    using assms(1) by simp
  then have "findNextPlayerWithChips_loop ps ((from + 1) mod length ps) 0 =
             Inr ((from + 1) mod length ps, 0)"
    using assms(2) by (subst findNextPlayerWithChips_loop.simps) simp
  then show ?thesis
    using assms(1) by (simp add: findNextPlayerWithChips_def)
qed

text \<open>
  C8, as amended: with all six seats at 1000 chips (blinds 20 and 40), startNewHand
  succeeds, the pot is 60, currentBet is 40, the dealer button moves one seat, the blinds
  are the next two seats, and the active seat is the seat three positions left of the
  dealer: the seat left of the big blind (UTG).
\<close>

theorem start_six_1000:
  assumes g0: "reachable g0"
    and g1: "setPlayerStacks [1000, 1000, 1000, 1000, 1000, 1000] g0 = Inr g1"
  shows "\<exists>g. startNewHand hid rnd g1 = Inr g \<and> pot g = 60 \<and> PokerGame.currentBet g = 40 \<and>
           dealerIndex g = (dealerIndex g0 + 1) mod 6 \<and>
           smallBlindIndex g = (dealerIndex g + 1) mod 6 \<and>
           bigBlindIndex g = (dealerIndex g + 2) mod 6 \<and>
           activePlayerIndex g = (bigBlindIndex g + 1) mod 6 \<and>
           activePlayerIndex g = (dealerIndex g + 3) mod 6"
proof -
  note s = setPlayerStacks_stacks [OF reachable_length [OF g0] g1]
  have d0: "dealerIndex g1 = dealerIndex g0"
    using g1 by (simp add: setPlayerStacks_Inr_iff [OF reachable_length [OF g0]])
  let ?ps = "map reset (players g1)"
  have len: "length ?ps = 6" using s(3) by simp
  have st: "stack (?ps ! i) = 1000" if "i < 6" for i
    using that s(3) arg_cong [OF s(1), of "\<lambda>xs. xs ! i"]
      nth_mem [of i "[1000, 1000, 1000, 1000, 1000, 1000 :: int]"] by simp
  have ne: "0 < length ?ps" using len by simp
  have nxt: "findNextPlayerWithChips from ?ps = Inr ((from + 1) mod 6)" for "from"
    using findNextPlayerWithChips_next [OF ne, of "from"] st [of "(from + 1) mod 6"] len by simp
  have "players g1 ! 0 \<in> set (players g1)"
    using s(3) by (intro nth_mem) simp
  moreover have "stack (players g1 ! 0) \<noteq> 0"
    using st [of 0] s(3) by simp
  ultimately have funded: "\<exists>p\<in>set (players g1). stack p \<noteq> 0"
    by blast
  let ?d = "(dealerIndex g0 + 1) mod 6"
  let ?sb = "(?d + 1) mod 6"
  let ?bb = "(?sb + 1) mod 6"
  have r1: "resetForNewHand hid rnd g1 =
            Inr (g1\<lparr>handId := hid, deck := Deck_reset rnd, communityCards := [], pot := 0,
                    currentBet := 0, actionLog := [], gameActions := [], phase := SETUP,
                    isFirstAction := True, players := ?ps,
                    dealerIndex := ?d, smallBlindIndex := ?sb, bigBlindIndex := ?bb\<rparr>)"
    (is "_ = Inr ?g1")
    by (simp add: resetForNewHand_def Let_def nxt d0)
  from startNewHand_funded [OF s(3) funded, of hid rnd] r1
  obtain g2 g where g2: "postBlinds ?g1 = Inr g2" and g: "startNewHand hid rnd g1 = Inr g"
    and strip: "map (\<lambda>p. p\<lparr>holeCards := []\<rparr>) (players g) = map (\<lambda>p. p\<lparr>holeCards := []\<rparr>) (players g2)"
    and act: "findNextActivePlayer_loop (players g) ((bigBlindIndex g2 + 1) mod 6) 0
                ((bigBlindIndex g2 + 1) mod 6) = Inr (activePlayerIndex g)"
    and shape: "g = g2\<lparr>deck := deck g, players := players g, phase := PREFLOP,
                   activePlayerIndex := activePlayerIndex g, actionLog := actionLog g\<rparr>"
    and len': "length (players g) = 6"
    by auto
  have idx: "smallBlindIndex ?g1 < length (players ?g1)" "bigBlindIndex ?g1 < length (players ?g1)"
    using len by simp_all
  let ?p1 = "snd (bet SMALL_BLIND (?ps ! ?sb))"
  let ?ps1 = "?ps[?sb := ?p1]"
  let ?p2 = "snd (bet BIG_BLIND (?ps1 ! ?bb))"
  from g2 have g2_eq: "g2 = ?g1\<lparr>players := ?ps1[?bb := ?p2],
        pot := min SMALL_BLIND (stack (?ps ! ?sb)) + min BIG_BLIND (stack (?ps1 ! ?bb)),
        currentBet := BIG_BLIND\<rparr>"
    unfolding postBlinds_Inr [OF idx] by simp
  have st1: "stack (?ps1 ! ?bb) = 1000 \<or> stack (?ps1 ! ?bb) = 980"
    using st [of ?bb] st [of ?sb] len by (simp add: nth_list_update SMALL_BLIND_def)
  have pot2: "pot g2 = 60"
    unfolding g2_eq using st1 st [of ?sb] by (auto simp: SMALL_BLIND_def BIG_BLIND_def)
  have fld: "dealerIndex g2 = ?d" "smallBlindIndex g2 = ?sb" "bigBlindIndex g2 = ?bb"
    "PokerGame.currentBet g2 = 40"
    unfolding g2_eq by (simp_all add: BIG_BLIND_def)
  have "set (map stack (players g1)) = {1000}"
    unfolding s(1) by simp
  then have allst: "\<forall>q\<in>set (players g1). stack q = 1000"
    by auto
  have R0: "\<forall>p\<in>set ?ps. \<not> hasFolded p \<and> \<not> isAllIn p \<and> stack p = 1000"
    using allst by (auto simp: reset_def)
  have sb_in: "?ps ! ?sb \<in> set ?ps" using len by (intro nth_mem) simp
  have R1: "\<forall>p\<in>set ?ps1. \<not> hasFolded p \<and> \<not> isAllIn p \<and> 980 \<le> stack p"
  proof
    fix p assume "p \<in> set ?ps1"
    with set_update_subset_insert [of ?ps ?sb ?p1] have "p = ?p1 \<or> p \<in> set ?ps" by blast
    then show "\<not> hasFolded p \<and> \<not> isAllIn p \<and> 980 \<le> stack p"
    proof
      assume "p = ?p1"
      moreover from R0 sb_in
      have "\<not> hasFolded (?ps ! ?sb) \<and> \<not> isAllIn (?ps ! ?sb) \<and> stack (?ps ! ?sb) = 1000"
        by blast
      ultimately show ?thesis by (simp add: SMALL_BLIND_def)
    next
      assume "p \<in> set ?ps"
      with R0 have "\<not> hasFolded p \<and> \<not> isAllIn p \<and> stack p = 1000" by blast
      then show ?thesis by simp
    qed
  qed
  have bb_in: "?ps1 ! ?bb \<in> set ?ps1" using len by (intro nth_mem) simp
  have can3: "canAct p" if "p \<in> set (players g2)" for p
  proof -
    from that have "p \<in> set (?ps1[?bb := ?p2])" unfolding g2_eq by simp
    with set_update_subset_insert [of ?ps1 ?bb ?p2] have "p = ?p2 \<or> p \<in> set ?ps1" by blast
    then show ?thesis
    proof
      assume "p = ?p2"
      moreover from R1 bb_in
      have "\<not> hasFolded (?ps1 ! ?bb) \<and> \<not> isAllIn (?ps1 ! ?bb) \<and> 980 \<le> stack (?ps1 ! ?bb)"
        by blast
      ultimately show ?thesis by (simp add: BIG_BLIND_def canAct_def)
    next
      assume "p \<in> set ?ps1"
      with R1 have "\<not> hasFolded p \<and> \<not> isAllIn p \<and> 980 \<le> stack p" by blast
      then show ?thesis by (simp add: canAct_def)
    qed
  qed
  note m = strip_eq_maps [OF strip]
  let ?a = "(?bb + 1) mod 6"
  have len2: "length (players g2) = 6" unfolding g2_eq using len by simp
  have "canAct (players g2 ! ?a)" using can3 len2 by simp
  then have "canAct (players g ! ?a)"
    using arg_cong [OF m(1), of "\<lambda>xs. xs ! ?a"] arg_cong [OF m(2), of "\<lambda>xs. xs ! ?a"]
      arg_cong [OF m(5), of "\<lambda>xs. xs ! ?a"] len' len2
    by (simp add: canAct_def)
  from findNextActivePlayer_loop_canAct [OF _ this, of ?a] act len'
  have a: "activePlayerIndex g = ?a" by (simp add: fld)
  have f: "pot g = pot g2" "PokerGame.currentBet g = PokerGame.currentBet g2"
    "dealerIndex g = dealerIndex g2" "smallBlindIndex g = smallBlindIndex g2"
    "bigBlindIndex g = bigBlindIndex g2"
    by (subst shape, simp)+
  have c1: "pot g = 60" by (simp add: f pot2)
  have c2: "PokerGame.currentBet g = 40" by (simp add: f fld)
  have c3: "dealerIndex g = (dealerIndex g0 + 1) mod 6" by (simp add: f fld)
  have c4: "smallBlindIndex g = (dealerIndex g + 1) mod 6" by (simp only: f fld)
  have c5: "bigBlindIndex g = (dealerIndex g + 2) mod 6" by (simp add: f fld mod_simps ac_simps)
  have c6: "activePlayerIndex g = (bigBlindIndex g + 1) mod 6" by (simp only: f fld a)
  have c7: "activePlayerIndex g = (dealerIndex g + 3) mod 6" by (simp add: f fld a mod_simps ac_simps)
  from g c1 c2 c3 c4 c5 c6 c7 show ?thesis by blast
qed

theorem start_six_1000_witness:
  "\<exists>g. startNewHand [] (\<lambda>i. 0)
          (projr (setPlayerStacks [1000, 1000, 1000, 1000, 1000, 1000] (PokerGame_new (\<lambda>i. 0)))) = Inr g \<and>
        pot g = 60 \<and> PokerGame.currentBet g = 40 \<and>
        activePlayerIndex g = (dealerIndex g + 3) mod 6"
proof -
  have "\<not> isl (setPlayerStacks [1000, 1000, 1000, 1000, 1000, 1000] (PokerGame_new (\<lambda>i. 0)))"
    by code_simp
  from start_six_1000 [OF reachable_new sum_collapse_Inr [OF this], of "[]" "\<lambda>i. 0"]
  show ?thesis by blast
qed

theorem start_six_1000_counterexample:
  "in_hand [1000, 1000, 1000, 1000, 1000, 1000] table_1000 \<and>
   pot table_1000 = 60 \<and> PokerGame.currentBet table_1000 = 40 \<and>
   dealerIndex table_1000 = 1 \<and> bigBlindIndex table_1000 = 3 \<and>
   activePlayerIndex table_1000 = 4 \<and>
   activePlayerIndex table_1000 \<noteq> (dealerIndex table_1000 + 2) mod 6"
proof -
  have "(pot table_1000, PokerGame.currentBet table_1000, dealerIndex table_1000,
         bigBlindIndex table_1000, activePlayerIndex table_1000) = (60, 40, 1, 3, 4)"
    by code_simp
  with table_1000_in_hand show ?thesis by simp
qed

lemma table_one_funded_reachable: "reachable table_one_funded"
proof -
  have "\<not> isl (setPlayerStacks [1000, 0, 0, 0, 0, 0] (PokerGame_new (\<lambda>i. 0)))"
    by code_simp
  from reachable_stacks [OF reachable_new sum_collapse_Inr [OF this]] show ?thesis
    by (simp add: table_one_funded_def)
qed

text \<open>
  C4, as amended: startNewHand fails with the no-funded-seats error if and only if no
  seat has chips (every stack is 0); whenever at least one seat has chips it succeeds
  (a single funded seat is dealer, small blind and big blind at once).
\<close>

theorem startNewHand_fails_iff_no_chips:
  assumes "reachable g"
  shows "(startNewHand hid rnd g = Inl NoPlayersWithChips \<longleftrightarrow> (\<forall>p\<in>set (players g). stack p = 0)) \<and>
         ((\<exists>p\<in>set (players g). stack p \<noteq> 0) \<longrightarrow> (\<exists>g'. startNewHand hid rnd g = Inr g'))"
proof -
  note len = reachable_length [OF assms]
  have ok: "\<exists>g'. startNewHand hid rnd g = Inr g'" if "\<exists>p\<in>set (players g). stack p \<noteq> 0"
    using startNewHand_funded [OF len that, of hid rnd] by blast
  have "startNewHand hid rnd g = Inl NoPlayersWithChips" if "\<forall>p\<in>set (players g). stack p = 0"
    using startNewHand_broke [OF len that] .
  moreover have "\<forall>p\<in>set (players g). stack p = 0" if "startNewHand hid rnd g = Inl NoPlayersWithChips"
  proof (rule ccontr)
    assume "\<not> (\<forall>p\<in>set (players g). stack p = 0)"
    then have "\<exists>p\<in>set (players g). stack p \<noteq> 0" by blast
    from ok [OF this] that show False by auto
  qed
  ultimately show ?thesis using ok by blast
qed

theorem startNewHand_fails_iff_no_chips_witness:
  "reachable table_one_funded \<and> (\<exists>p\<in>set (players table_one_funded). stack p \<noteq> 0) \<and>
   (\<exists>g'. startNewHand [] (\<lambda>i. 0) table_one_funded = Inr g')"
proof -
  have "list_ex (\<lambda>p. stack p \<noteq> 0) (players table_one_funded)"
    by code_simp
  then have "\<exists>p\<in>set (players table_one_funded). stack p \<noteq> 0"
    by (simp add: list_ex_iff)
  with startNewHand_fails_iff_no_chips [OF table_one_funded_reachable, of "[]" "\<lambda>i. 0"]
    table_one_funded_reachable
  show ?thesis by blast
qed

theorem startNewHand_fails_iff_no_chips_counterexample:
  "reachable table_one_funded \<and>
   length (filter (\<lambda>p. 0 < stack p) (players table_one_funded)) < 2 \<and>
   \<not> isl (startNewHand [] (\<lambda>i. 0) table_one_funded) \<and>
   startNewHand [] (\<lambda>i. 0) table_one_funded \<noteq> Inl NoPlayersWithChips"
proof -
  have "length (filter (\<lambda>p. 0 < stack p) (players table_one_funded)) < 2 \<and>
        \<not> isl (startNewHand [] (\<lambda>i. 0) table_one_funded)"
    by code_simp
  with table_one_funded_reachable show ?thesis by auto
qed

lemma table_short_30_in_hand: "in_hand [1000, 1000, 1000, 1000, 30, 1000] table_short_30"
proof -
  have "\<not> isl (new_table [1000, 1000, 1000, 1000, 30, 1000])" by code_simp
  from new_table_in_hand [OF sum_collapse_Inr [OF this]] show ?thesis
    by (simp add: table_short_30_def)
qed

text \<open>
  C3, as amended: the valid-actions query returns the empty list when the active seat
  cannot act or the phase is SETUP or FINISHED; otherwise it returns FOLD always; CHECK
  iff amount-to-call is 0; BET iff amount-to-call is 0 and the seat's stack >= big
  blind; CALL iff amount-to-call is not 0 and the seat's stack >= amount-to-call; RAISE
  iff amount-to-call is not 0, the seat's stack > amount-to-call and the seat's stack >=
  big blind; ALL_IN always (a seat that can act has stack > 0); and nothing else.
\<close>

theorem getValidActions_exact:
  "(\<not> (activePlayerIndex g < length (players g) \<and> canAct (players g ! activePlayerIndex g) \<and>
        PokerGame.phase g \<noteq> FINISHED \<and> PokerGame.phase g \<noteq> SETUP)
      \<longrightarrow> getValidActions g = []) \<and>
   (activePlayerIndex g < length (players g) \<and> canAct (players g ! activePlayerIndex g) \<and>
    PokerGame.phase g \<noteq> FINISHED \<and> PokerGame.phase g \<noteq> SETUP
      \<longrightarrow> FOLD \<in> set (getValidActions g) \<and>
          (CHECK \<in> set (getValidActions g) \<longleftrightarrow>
             PokerGame.currentBet g - Player.currentBet (players g ! activePlayerIndex g) = 0) \<and>
          (BET \<in> set (getValidActions g) \<longleftrightarrow>
             PokerGame.currentBet g - Player.currentBet (players g ! activePlayerIndex g) = 0 \<and>
             BIG_BLIND \<le> stack (players g ! activePlayerIndex g)) \<and>
          (CALL \<in> set (getValidActions g) \<longleftrightarrow>
             PokerGame.currentBet g - Player.currentBet (players g ! activePlayerIndex g) \<noteq> 0 \<and>
             PokerGame.currentBet g - Player.currentBet (players g ! activePlayerIndex g)
               \<le> stack (players g ! activePlayerIndex g)) \<and>
          (RAISE \<in> set (getValidActions g) \<longleftrightarrow>
             PokerGame.currentBet g - Player.currentBet (players g ! activePlayerIndex g) \<noteq> 0 \<and>
             PokerGame.currentBet g - Player.currentBet (players g ! activePlayerIndex g)
               < stack (players g ! activePlayerIndex g) \<and>
             BIG_BLIND \<le> stack (players g ! activePlayerIndex g)) \<and>
          ALL_IN \<in> set (getValidActions g) \<and>
          UNKNOWN \<notin> set (getValidActions g) \<and>
          distinct (getValidActions g))"
  by (auto simp: getValidActions_def Let_def canAct_def)

theorem getValidActions_exact_witness:
  "activePlayerIndex table_1000 < length (players table_1000) \<and>
   canAct (players table_1000 ! activePlayerIndex table_1000) \<and>
   PokerGame.phase table_1000 = PREFLOP \<and>
   PokerGame.currentBet table_1000 -
     Player.currentBet (players table_1000 ! activePlayerIndex table_1000) = 40 \<and>
   stack (players table_1000 ! activePlayerIndex table_1000) = 1000 \<and>
   CALL \<in> set (getValidActions table_1000) \<and> RAISE \<in> set (getValidActions table_1000) \<and>
   CHECK \<notin> set (getValidActions table_1000) \<and> BET \<notin> set (getValidActions table_1000)"
proof -
  have "(activePlayerIndex table_1000 < length (players table_1000),
         canAct (players table_1000 ! activePlayerIndex table_1000),
         PokerGame.phase table_1000,
         PokerGame.currentBet table_1000 -
           Player.currentBet (players table_1000 ! activePlayerIndex table_1000),
         stack (players table_1000 ! activePlayerIndex table_1000)) = (True, True, PREFLOP, 40, 1000)"
    by code_simp
  with getValidActions_exact [of table_1000] show ?thesis
    by (simp add: BIG_BLIND_def)
qed

theorem getValidActions_exact_counterexample:
  "in_hand [1000, 1000, 1000, 1000, 30, 1000] table_short_30 \<and>
   canAct (players table_short_30 ! activePlayerIndex table_short_30) \<and>
   PokerGame.phase table_short_30 = PREFLOP \<and>
   0 < PokerGame.currentBet table_short_30 -
     Player.currentBet (players table_short_30 ! activePlayerIndex table_short_30) \<and>
   getValidActions table_short_30 = [FOLD, ALL_IN] \<and>
   CALL \<notin> set (getValidActions table_short_30)"
proof -
  have "(canAct (players table_short_30 ! activePlayerIndex table_short_30),
         PokerGame.phase table_short_30,
         PokerGame.currentBet table_short_30 -
           Player.currentBet (players table_short_30 ! activePlayerIndex table_short_30),
         getValidActions table_short_30) = (True, PREFLOP, 40, [FOLD, ALL_IN])"
    by code_simp
  with table_short_30_in_hand show ?thesis by simp
qed

lemma table_1000_seat:
  "activePlayerIndex table_1000 < length (players table_1000)"
  "canAct (players table_1000 ! activePlayerIndex table_1000)"
  "PokerGame.phase table_1000 = PREFLOP"
  "PokerGame.currentBet table_1000 -
     Player.currentBet (players table_1000 ! activePlayerIndex table_1000) = 40"
  "isFirstAction table_1000"
proof -
  have "(activePlayerIndex table_1000 < length (players table_1000),
         canAct (players table_1000 ! activePlayerIndex table_1000),
         PokerGame.phase table_1000,
         PokerGame.currentBet table_1000 -
           Player.currentBet (players table_1000 ! activePlayerIndex table_1000),
         isFirstAction table_1000) = (True, True, PREFLOP, 40, True)"
    by code_simp
  then show "activePlayerIndex table_1000 < length (players table_1000)"
    "canAct (players table_1000 ! activePlayerIndex table_1000)"
    "PokerGame.phase table_1000 = PREFLOP"
    "PokerGame.currentBet table_1000 -
       Player.currentBet (players table_1000 ! activePlayerIndex table_1000) = 40"
    "isFirstAction table_1000"
    by simp_all
qed

text \<open>
  C5: the failing input. In the hand just started with six seats of 1000 the first seat
  to act must call 40; its CHECK is rejected, and the rejected call has cleared
  isFirstAction.
\<close>

theorem rejected_check_clears_first_action:
  "isFirstAction table_1000 \<and>
   processAction CHECK None table_1000 = Inr (False, table_1000\<lparr>isFirstAction := False\<rparr>) \<and>
   \<not> isFirstAction (snd (projr (processAction CHECK None table_1000)))"
proof -
  have "processAction CHECK None table_1000 = Inr (False, table_1000\<lparr>isFirstAction := False\<rparr>)"
    using table_1000_seat(1,2,4)
    unfolding processAction_def Let_def first_action_flip by simp
  with table_1000_seat(5) show ?thesis by simp
qed




lemma table_showdown_in_hand: "in_hand [1000, 1000, 1000, 1000, 1000, 1000] table_showdown"
proof -
  have "live_play check_down table_1000" by code_simp
  from play_in_hand [OF table_1000_in_hand this] show ?thesis
    by (auto simp: table_showdown_def)
qed

text \<open>
  C7: the failing input. Six seats of 1000 call or check to the showdown. The board is
  2s Ac Kc Jc 9c; seat 2 holds 2h 9s (two pair, nines and twos, the best hand), seat 3
  holds As 8s (a pair of aces), seat 0 holds Js 5s (a pair of jacks). No seat has folded,
  and the whole pot of 240 is added to the stack of seat 0, the first seat that has not
  folded.
\<close>

theorem showdown_pays_first_seat:
  "in_hand [1000, 1000, 1000, 1000, 1000, 1000] table_showdown \<and>
   PokerGame.phase table_showdown = FINISHED \<and>
   map Card_toString (communityCards table_showdown) = [''2s'', ''Ac'', ''Kc'', ''Jc'', ''9c''] \<and>
   map (\<lambda>p. map Card_toString (holeCards p)) (players table_showdown) =
     [[''Js'', ''5s''], [''Ts'', ''4s''], [''2h'', ''9s''], [''As'', ''8s''],
      [''Ks'', ''7s''], [''Qs'', ''6s'']] \<and>
   map hasFolded (players table_showdown) = [False, False, False, False, False, False] \<and>
   pot table_showdown = 240 \<and>
   map stack (players table_showdown) = [1200, 960, 960, 960, 960, 960]"
proof -
  have "(PokerGame.phase table_showdown,
         map Card_toString (communityCards table_showdown),
         map (\<lambda>p. map Card_toString (holeCards p)) (players table_showdown),
         map hasFolded (players table_showdown),
         pot table_showdown,
         map stack (players table_showdown)) =
        (FINISHED, [''2s'', ''Ac'', ''Kc'', ''Jc'', ''9c''],
         [[''Js'', ''5s''], [''Ts'', ''4s''], [''2h'', ''9s''], [''As'', ''8s''],
          [''Ks'', ''7s''], [''Qs'', ''6s'']],
         [False, False, False, False, False, False], 240, [1200, 960, 960, 960, 960, 960])"
    by code_simp
  with table_showdown_in_hand show ?thesis by simp
qed

subsection \<open>An all-in seat has no chips left\<close>

lemma bet_keeps_allin_empty:
  assumes "isAllIn p \<longrightarrow> stack p = 0" and "0 \<le> x"
  shows "isAllIn (snd (bet x p)) \<longrightarrow> stack (snd (bet x p)) = 0"
  using assms by auto

lemma postBlinds_allin:
  assumes r: "postBlinds g = Inr g'"
    and all: "\<forall>p\<in>set (players g). isAllIn p \<longrightarrow> stack p = 0"
  shows "\<forall>p\<in>set (players g'). isAllIn p \<longrightarrow> stack p = 0"
proof -
  note idx = postBlinds_indices [OF r]
  let ?A = "\<lambda>p. isAllIn p \<longrightarrow> stack p = 0"
  let ?sb = "snd (bet SMALL_BLIND (players g ! smallBlindIndex g))"
  let ?ps1 = "(players g)[smallBlindIndex g := ?sb]"
  let ?bb = "snd (bet BIG_BLIND (?ps1 ! bigBlindIndex g))"
  have "?A (players g ! smallBlindIndex g)" using all idx by simp
  then have "?A ?sb" by (intro bet_keeps_allin_empty) (simp_all add: SMALL_BLIND_def)
  with all set_update_subset_insert [of "players g" "smallBlindIndex g" ?sb]
  have A1: "\<forall>p\<in>set ?ps1. ?A p" by blast
  have "?ps1 ! bigBlindIndex g \<in> set ?ps1" using idx by (intro nth_mem) simp
  with A1 have "?A (?ps1 ! bigBlindIndex g)" by blast
  then have "?A ?bb" by (intro bet_keeps_allin_empty) (simp_all add: BIG_BLIND_def)
  with A1 set_update_subset_insert [of ?ps1 "bigBlindIndex g" ?bb]
  have "\<forall>p\<in>set (?ps1[bigBlindIndex g := ?bb]). ?A p" by blast
  with r show ?thesis
    unfolding postBlinds_Inr [OF idx] by auto
qed

lemma startNewHand_allin:
  assumes len: "length (players g) = 6" and r: "startNewHand hid rnd g = Inr g'"
  shows "\<forall>p\<in>set (players g'). isAllIn p \<longrightarrow> stack p = 0"
proof -
  have funded: "\<exists>p\<in>set (players g). stack p \<noteq> 0"
    using startNewHand_broke [OF len, of hid rnd] r by auto
  from startNewHand_funded [OF len funded, of hid rnd] r
  obtain g1 g2 where g2: "postBlinds g1 = Inr g2"
    and ps1: "players g1 = map reset (players g)"
    and strip: "map (\<lambda>p. p\<lparr>holeCards := []\<rparr>) (players g') = map (\<lambda>p. p\<lparr>holeCards := []\<rparr>) (players g2)"
    by auto
  note m = strip_eq_maps [OF strip]
  have "\<forall>p\<in>set (players g1). isAllIn p \<longrightarrow> stack p = 0"
    unfolding ps1 by (auto simp: reset_def)
  from postBlinds_allin [OF g2 this] have a2: "\<forall>p\<in>set (players g2). isAllIn p \<longrightarrow> stack p = 0" .
  show ?thesis
  proof
    fix p assume "p \<in> set (players g')"
    then obtain i where i: "i < length (players g')" "p = players g' ! i"
      by (auto simp: in_set_conv_nth)
    from m(1) have len2: "length (players g') = length (players g2)" by (metis length_map)
    from i len2 have "stack p = stack (players g2 ! i)" "isAllIn p = isAllIn (players g2 ! i)"
      using arg_cong [OF m(1), of "\<lambda>xs. xs ! i"] arg_cong [OF m(5), of "\<lambda>xs. xs ! i"] by simp_all
    moreover from i len2 have "players g2 ! i \<in> set (players g2)" by simp
    ultimately show "isAllIn p \<longrightarrow> stack p = 0" using a2 by auto
  qed
qed

lemma processAction_allin:
  assumes r: "processAction act amt g = Inr (ok, g')"
    and all: "\<forall>p\<in>set (players g). isAllIn p \<longrightarrow> stack p = 0"
    and live: "PokerGame.phase g' \<noteq> FINISHED"
  shows "\<forall>p\<in>set (players g'). isAllIn p \<longrightarrow> stack p = 0"
proof (cases ok)
  case False
  with processAction_rejected [of act amt g g'] r all show ?thesis by auto
next
  case True
  with r have r': "processAction act amt g = Inr (True, g')" by simp
  let ?p = "players g ! activePlayerIndex g"
  let ?A = "\<lambda>p. isAllIn p \<longrightarrow> stack p = 0"
  have mid: "\<forall>q\<in>set ((players g)[activePlayerIndex g := p']). ?A q"
    if can: "canAct ?p"
      and kind: "p' = fold_player ?p \<and> da = 0 \<and> cb = PokerGame.currentBet g
        \<or> p' = check ?p \<and> da = 0 \<and> cb = PokerGame.currentBet g
        \<or> (\<exists>x. p' = snd (bet x ?p) \<and> da = min x (stack ?p) \<and>
                (0 < x \<or> (\<exists>a. x = a - Player.currentBet ?p \<and>
                               PokerGame.currentBet g < a \<and> PokerGame.currentBet g \<noteq> 0)))"
    for p' da cb
  proof -
    from kind can have "?A p'"
      by (elim disjE conjE exE) (simp_all add: fold_player_def check_def canAct_def)
    with all set_update_subset_insert [of "players g" "activePlayerIndex g" p']
    show ?thesis by blast
  qed
  from r' show ?thesis
  proof (cases rule: processAction_accepted_cases)
    case (round_open p' da cb)
    from mid [OF round_open(2,4)] round_open(8) show ?thesis by simp
  next
    case (hand_over p' da cb)
    with live show ?thesis by simp
  next
    case (street_dealt p' da cb)
    from mid [OF street_dealt(2,4)] show ?thesis
      unfolding street_dealt(8) by auto
  qed
qed

lemma in_hand_allin:
  "in_hand st g \<Longrightarrow> PokerGame.phase g \<noteq> FINISHED \<longrightarrow> (\<forall>p\<in>set (players g). isAllIn p \<longrightarrow> stack p = 0)"
proof (induction rule: in_hand.induct)
  case (in_hand_start g0 stacks g1 hid rnd g)
  note s = setPlayerStacks_stacks [OF reachable_length [OF in_hand_start(1)] in_hand_start(2)]
  from startNewHand_allin [OF s(3) in_hand_start(3)] show ?case by simp
next
  case (in_hand_action stacks g act amt ok g')
  show ?case
  proof
    assume "PokerGame.phase g' \<noteq> FINISHED"
    from processAction_allin [OF in_hand_action(3) _ this] in_hand_action(2,4) show
      "\<forall>p\<in>set (players g'). isAllIn p \<longrightarrow> stack p = 0" by blast
  qed
qed

subsection \<open>What a raise leaves as the bet to match\<close>

lemma advanceToNextPhase_street_bets:
  assumes "advanceToNextPhase g = Inr g'" and "i < length (players g)"
  shows "i < length (players g') \<and> Player.currentBet (players g' ! i) = 0 \<and>
         PokerGame.currentBet g' = 0"
proof -
  let ?reset = "\<lambda>p. p\<lparr>hasActed := False, Player.currentBet := 0\<rparr>"
  note adv = advanceToNextPhase_Inr [OF assms(1)]
  from adv have cb: "PokerGame.currentBet g' = 0" by simp
  from adv have "players g' = update_first (\<lambda>p. \<not> hasFolded p) (\<lambda>p. p\<lparr>stack := stack p + pot g\<rparr>)
                      (map ?reset (players g))
      \<or> players g' = map ?reset (players g)"
    by blast
  then have "map Player.currentBet (players g') = map Player.currentBet (map ?reset (players g))"
    by (auto simp: map_update_first_same)
  then have m: "map Player.currentBet (players g') = map (\<lambda>p. 0) (players g)"
    by (simp add: o_def)
  then have len: "length (players g') = length (players g)"
    by (metis length_map)
  from arg_cong [OF m, of "\<lambda>xs. xs ! i"] assms(2) len cb show ?thesis by simp
qed

lemma table_short_10_in_hand: "in_hand [1000, 1000, 1000, 1000, 10, 1000] table_short_10"
proof -
  have "\<not> isl (new_table [1000, 1000, 1000, 1000, 10, 1000])" by code_simp
  from new_table_in_hand [OF sum_collapse_Inr [OF this]] show ?thesis
    by (simp add: table_short_10_def)
qed

lemma table_short_10_raise:
  "stack (players table_short_10 ! activePlayerIndex table_short_10) = 10"
  "Player.currentBet (players table_short_10 ! activePlayerIndex table_short_10) = 0"
  "PokerGame.currentBet table_short_10 = 40"
  "\<not> isl (processAction RAISE (Some 100) table_short_10)"
  "fst (projr (processAction RAISE (Some 100) table_short_10))"
  "PokerGame.currentBet (snd (projr (processAction RAISE (Some 100) table_short_10))) = 10"
proof -
  have "(stack (players table_short_10 ! activePlayerIndex table_short_10),
         Player.currentBet (players table_short_10 ! activePlayerIndex table_short_10),
         PokerGame.currentBet table_short_10,
         isl (processAction RAISE (Some 100) table_short_10),
         fst (projr (processAction RAISE (Some 100) table_short_10)),
         PokerGame.currentBet (snd (projr (processAction RAISE (Some 100) table_short_10)))) =
        (10, 0, 40, False, True, 10)"
    by code_simp
  then show "stack (players table_short_10 ! activePlayerIndex table_short_10) = 10"
    "Player.currentBet (players table_short_10 ! activePlayerIndex table_short_10) = 0"
    "PokerGame.currentBet table_short_10 = 40"
    "\<not> isl (processAction RAISE (Some 100) table_short_10)"
    "fst (projr (processAction RAISE (Some 100) table_short_10))"
    "PokerGame.currentBet (snd (projr (processAction RAISE (Some 100) table_short_10))) = 10"
    by simp_all
qed

lemma table_short_10_raise_Inr:
  "processAction RAISE (Some 100) table_short_10 =
   Inr (True, snd (projr (processAction RAISE (Some 100) table_short_10)))"
  using sum_collapse_Inr [OF table_short_10_raise(4)] table_short_10_raise(5)
  by (metis prod.collapse)

text \<open>
  C10: after every accepted RAISE the engine's currentBet equals the currentStreetBet
  the raising seat has afterwards: what that seat had on the street plus the smaller of
  amount - currentStreetBet and its stack, or 0 for both when the raise closed the
  betting round;
  and there is a running hand in which the raiser's stack is less than amount -
  currentStreetBet and the accepted RAISE leaves currentBet strictly lower than before.
\<close>

theorem raise_sets_currentBet:
  "(processAction RAISE amt g = Inr (True, g') \<longrightarrow>
      activePlayerIndex g < length (players g') \<and>
      PokerGame.currentBet g' = Player.currentBet (players g' ! activePlayerIndex g) \<and>
      (\<exists>a. amt = Some a \<and>
         (PokerGame.currentBet g' =
            Player.currentBet (players g ! activePlayerIndex g) +
              min (a - Player.currentBet (players g ! activePlayerIndex g))
                  (stack (players g ! activePlayerIndex g)) \<or>
          PokerGame.currentBet g' = 0))) \<and>
   (\<exists>st h a h'. in_hand st h \<and>
      stack (players h ! activePlayerIndex h) < a - Player.currentBet (players h ! activePlayerIndex h) \<and>
      processAction RAISE (Some a) h = Inr (True, h') \<and>
      PokerGame.currentBet h' < PokerGame.currentBet h)"
proof (rule conjI)
  show "processAction RAISE amt g = Inr (True, g') \<longrightarrow>
      activePlayerIndex g < length (players g') \<and>
      PokerGame.currentBet g' = Player.currentBet (players g' ! activePlayerIndex g) \<and>
      (\<exists>a. amt = Some a \<and>
         (PokerGame.currentBet g' =
            Player.currentBet (players g ! activePlayerIndex g) +
              min (a - Player.currentBet (players g ! activePlayerIndex g))
                  (stack (players g ! activePlayerIndex g)) \<or>
          PokerGame.currentBet g' = 0))"
  proof (rule impI)
  let ?p = "players g ! activePlayerIndex g"
  assume r: "processAction RAISE amt g = Inr (True, g')"
  then have idx: "activePlayerIndex g < length (players g)" and can: "canAct ?p"
    unfolding processAction_def Let_def by (auto split: if_splits)
  from r idx can obtain a where a: "amt = Some a"
    and acc: "processAction_accept (g\<lparr>isFirstAction := False,
                 pot := pot g + min (a - Player.currentBet ?p) (stack ?p),
                 currentBet := Player.currentBet (snd (bet (a - Player.currentBet ?p) ?p))\<rparr>)
             (snd (bet (a - Player.currentBet ?p) ?p)) (min (a - Player.currentBet ?p) (stack ?p))
             (name (snd (bet (a - Player.currentBet ?p) ?p)) @ '' raises to '' @
                show_int (Player.currentBet (snd (bet (a - Player.currentBet ?p) ?p))))
             (''r'' @ show_int (Player.currentBet (snd (bet (a - Player.currentBet ?p) ?p)))) = Inr (True, g')"
    unfolding processAction_def Let_def first_action_flip
    by (cases amt) (simp_all add: split_def split: if_splits)
  let ?p' = "snd (bet (a - Player.currentBet ?p) ?p)"
  from processAction_accept_Inr [OF acc]
  obtain g4 where g4: "players g4 = (players g)[activePlayerIndex g := ?p']"
      "PokerGame.currentBet g4 = Player.currentBet ?p'"
    and fin: "if isBettingRoundComplete g4 then advanceToNextPhase g4 = Inr g' else g' = g4"
    by auto
  have idx4: "activePlayerIndex g < length (players g4)" using idx g4(1) by simp
  have pb: "Player.currentBet ?p' = Player.currentBet ?p + min (a - Player.currentBet ?p) (stack ?p)"
    by (simp add: bet_def Let_def)
  show "activePlayerIndex g < length (players g') \<and>
        PokerGame.currentBet g' = Player.currentBet (players g' ! activePlayerIndex g) \<and>
        (\<exists>a. amt = Some a \<and>
           (PokerGame.currentBet g' = Player.currentBet ?p + min (a - Player.currentBet ?p) (stack ?p) \<or>
            PokerGame.currentBet g' = 0))"
  proof (cases "isBettingRoundComplete g4")
    case True
    with fin have "advanceToNextPhase g4 = Inr g'" by simp
    from advanceToNextPhase_street_bets [OF this idx4] a show ?thesis by simp
  next
    case False
    with fin have "g' = g4" by simp
    with g4 idx a pb show ?thesis by simp
  qed
  qed
next
  show "\<exists>st h a h'. in_hand st h \<and>
      stack (players h ! activePlayerIndex h) < a - Player.currentBet (players h ! activePlayerIndex h) \<and>
      processAction RAISE (Some a) h = Inr (True, h') \<and>
      PokerGame.currentBet h' < PokerGame.currentBet h"
    apply (rule exI [of _ "[1000, 1000, 1000, 1000, 10, 1000]"])
    apply (rule exI [of _ table_short_10])
    apply (rule exI [of _ 100])
    apply (rule exI [of _ "snd (projr (processAction RAISE (Some 100) table_short_10))"])
    apply (intro conjI)
       apply (rule table_short_10_in_hand)
      apply (simp add: table_short_10_raise)
     apply (rule table_short_10_raise_Inr)
    apply (simp add: table_short_10_raise)
    done
qed

theorem raise_sets_currentBet_witness:
  "processAction RAISE (Some 100) table_short_10 =
     Inr (True, snd (projr (processAction RAISE (Some 100) table_short_10))) \<and>
   PokerGame.currentBet table_short_10 = 40 \<and>
   PokerGame.currentBet (snd (projr (processAction RAISE (Some 100) table_short_10))) = 10 \<and>
   Player.currentBet (players (snd (projr (processAction RAISE (Some 100) table_short_10))) !
      activePlayerIndex table_short_10) = 10"
  using raise_sets_currentBet [of "Some 100" table_short_10
      "snd (projr (processAction RAISE (Some 100) table_short_10))"]
    table_short_10_raise_Inr table_short_10_raise(3,6)
  by simp

subsection \<open>What an accepted bet, call, raise or all-in commits\<close>

lemma bet_min: "bet (min x (stack p)) p = bet x p"
  by (simp add: bet_def Let_def)

lemma update_first_stack_cong:
  "map stack xs = map stack ys \<Longrightarrow> map hasFolded xs = map hasFolded ys \<Longrightarrow>
   map stack (update_first (\<lambda>q. \<not> hasFolded q) (\<lambda>q. q\<lparr>stack := stack q + c\<rparr>) xs) =
   map stack (update_first (\<lambda>q. \<not> hasFolded q) (\<lambda>q. q\<lparr>stack := stack q + c\<rparr>) ys)"
proof (induction xs arbitrary: ys)
  case Nil
  then show ?case by simp
next
  case (Cons x xs)
  then obtain y ys' where ys: "ys = y # ys'" by (cases ys) auto
  with Cons.prems have "stack x = stack y" "hasFolded x = hasFolded y"
    "map stack xs = map stack ys'" "map hasFolded xs = map hasFolded ys'"
    by simp_all
  with Cons.IH [of ys'] ys show ?case by simp
qed

lemma processAction_bets:
  assumes r: "processAction act amt g = Inr (True, g')"
    and kind: "act = CALL \<and> x = PokerGame.currentBet g - Player.currentBet (players g ! activePlayerIndex g)
      \<or> act = BET \<and> amt = Some x
      \<or> act = RAISE \<and> (\<exists>a. amt = Some a \<and> x = a - Player.currentBet (players g ! activePlayerIndex g))
      \<or> act = ALL_IN \<and> x = stack (players g ! activePlayerIndex g)"
  shows "activePlayerIndex g < length (players g) \<and> canAct (players g ! activePlayerIndex g) \<and>
    (\<exists>cb desc short.
       processAction_accept (g\<lparr>isFirstAction := False,
           pot := pot g + min x (stack (players g ! activePlayerIndex g)), currentBet := cb\<rparr>)
         (snd (bet x (players g ! activePlayerIndex g)))
         (min x (stack (players g ! activePlayerIndex g))) desc short = Inr (True, g'))"
proof -
  let ?p = "players g ! activePlayerIndex g"
  from r have idx: "activePlayerIndex g < length (players g)" and can: "canAct ?p"
    unfolding processAction_def Let_def by (auto split: if_splits)
  have "\<exists>cb desc short.
       processAction_accept (g\<lparr>isFirstAction := False, pot := pot g + min x (stack ?p), currentBet := cb\<rparr>)
         (snd (bet x ?p)) (min x (stack ?p)) desc short = Inr (True, g')"
    using kind
  proof (elim disjE conjE exE)
    assume act: "act = CALL" and x: "x = PokerGame.currentBet g - Player.currentBet ?p"
    from act r idx can
    have "processAction_accept (g\<lparr>isFirstAction := False, pot := pot g + min x (stack ?p)\<rparr>)
             (snd (bet x ?p)) (min x (stack ?p))
             (name (snd (bet x ?p)) @ '' calls '' @ show_int (min x (stack ?p))) ''c'' = Inr (True, g')"
      unfolding processAction_def Let_def first_action_flip call_eq bet_min x
      by (simp_all add: split_def split: if_splits)
    then have "processAction_accept (g\<lparr>isFirstAction := False, pot := pot g + min x (stack ?p),
                 currentBet := PokerGame.currentBet g\<rparr>)
             (snd (bet x ?p)) (min x (stack ?p))
             (name (snd (bet x ?p)) @ '' calls '' @ show_int (min x (stack ?p))) ''c'' = Inr (True, g')"
      by simp
    then show ?thesis by blast
  next
    assume act: "act = BET" and x: "amt = Some x"
    from act x r idx can
    have "processAction_accept (g\<lparr>isFirstAction := False, pot := pot g + min x (stack ?p),
                 currentBet := Player.currentBet (snd (bet x ?p))\<rparr>)
             (snd (bet x ?p)) (min x (stack ?p))
             (name (snd (bet x ?p)) @ '' bets '' @ show_int (min x (stack ?p)))
             (''b'' @ show_int (min x (stack ?p))) = Inr (True, g')"
      unfolding processAction_def Let_def first_action_flip
      by (simp_all add: split_def split: if_splits)
    then show ?thesis by blast
  next
    fix a assume act: "act = RAISE" and a: "amt = Some a" and x: "x = a - Player.currentBet ?p"
    from act a r idx can
    have "processAction_accept (g\<lparr>isFirstAction := False,
                 pot := pot g + min (a - Player.currentBet ?p) (stack ?p),
                 currentBet := Player.currentBet (snd (bet (a - Player.currentBet ?p) ?p))\<rparr>)
             (snd (bet (a - Player.currentBet ?p) ?p)) (min (a - Player.currentBet ?p) (stack ?p))
             (name (snd (bet (a - Player.currentBet ?p) ?p)) @ '' raises to '' @
                show_int (Player.currentBet (snd (bet (a - Player.currentBet ?p) ?p))))
             (''r'' @ show_int (Player.currentBet (snd (bet (a - Player.currentBet ?p) ?p)))) = Inr (True, g')"
      unfolding processAction_def Let_def first_action_flip
      by (simp_all add: split_def split: if_splits)
    then show ?thesis unfolding x by blast
  next
    assume act: "act = ALL_IN" and x: "x = stack ?p"
    let ?p' = "snd (bet (stack ?p) ?p)"
    let ?cb = "if Player.currentBet ?p' > PokerGame.currentBet g then Player.currentBet ?p'
               else PokerGame.currentBet g"
    from act r idx can
    have "processAction_accept (g\<lparr>isFirstAction := False, pot := pot g + stack ?p, currentBet := ?cb\<rparr>)
             ?p' (stack ?p) (name ?p' @ '' goes all-in for '' @ show_int (stack ?p)) ''allin'' = Inr (True, g')"
      unfolding processAction_def Let_def first_action_flip allIn_eq
      by (simp add: split_def split: if_splits)
    then have "processAction_accept (g\<lparr>isFirstAction := False, pot := pot g + min (stack ?p) (stack ?p),
                 currentBet := ?cb\<rparr>)
             ?p' (min (stack ?p) (stack ?p)) (name ?p' @ '' goes all-in for '' @ show_int (stack ?p)) ''allin'' = Inr (True, g')"
      by simp
    then show ?thesis unfolding x by blast
  qed
  with idx can show ?thesis by blast
qed

lemma processAction_commits:
  assumes r: "processAction act amt g = Inr (True, g')"
    and kind: "act = CALL \<and> x = PokerGame.currentBet g - Player.currentBet (players g ! activePlayerIndex g)
      \<or> act = BET \<and> amt = Some x
      \<or> act = RAISE \<and> (\<exists>a. amt = Some a \<and> x = a - Player.currentBet (players g ! activePlayerIndex g))
      \<or> act = ALL_IN \<and> x = stack (players g ! activePlayerIndex g)"
  shows "pot g' = pot g + min x (stack (players g ! activePlayerIndex g))"
    and "map isAllIn (players g') =
         (map isAllIn (players g))[activePlayerIndex g :=
            (stack (players g ! activePlayerIndex g) - min x (stack (players g ! activePlayerIndex g)) = 0)]"
    and "map stack (players g') =
           (map stack (players g))[activePlayerIndex g :=
              stack (players g ! activePlayerIndex g) - min x (stack (players g ! activePlayerIndex g))]
         \<or> PokerGame.phase g' = FINISHED \<and>
           map stack (players g') =
             map stack (update_first (\<lambda>q. \<not> hasFolded q) (\<lambda>q. q\<lparr>stack := stack q + pot g'\<rparr>)
               ((players g)[activePlayerIndex g := (players g ! activePlayerIndex g)
                  \<lparr>stack := stack (players g ! activePlayerIndex g) -
                             min x (stack (players g ! activePlayerIndex g))\<rparr>]))"
proof -
  let ?i = "activePlayerIndex g"
  let ?p = "players g ! ?i"
  let ?c = "min x (stack ?p)"
  let ?p' = "snd (bet x ?p)"
  let ?ps4 = "(players g)[?i := ?p']"
  let ?reset = "\<lambda>p. p\<lparr>hasActed := False, Player.currentBet := 0\<rparr>"
  from processAction_bets [OF r kind] obtain cb desc short
    where idx: "?i < length (players g)" and can: "canAct ?p"
      and acc: "processAction_accept (g\<lparr>isFirstAction := False, pot := pot g + ?c, currentBet := cb\<rparr>)
         ?p' ?c desc short = Inr (True, g')"
    by blast
  from processAction_accept_Inr [OF acc]
  obtain g4 where g4: "players g4 = ?ps4" "pot g4 = pot g + ?c"
    and fin: "if isBettingRoundComplete g4 then advanceToNextPhase g4 = Inr g' else g' = g4"
    by auto
  have shape: "pot g' = pot g + ?c \<and>
     (players g' = ?ps4 \<or> players g' = map ?reset ?ps4 \<or>
      PokerGame.phase g' = FINISHED \<and>
      players g' = update_first (\<lambda>p. \<not> hasFolded p) (\<lambda>p. p\<lparr>stack := stack p + (pot g + ?c)\<rparr>)
                     (map ?reset ?ps4))"
  proof (cases "isBettingRoundComplete g4")
    case False
    with fin g4 show ?thesis by simp
  next
    case True
    with fin have "advanceToNextPhase g4 = Inr g'" by simp
    from advanceToNextPhase_Inr [OF this, unfolded g4] show ?thesis by blast
  qed
  then show pot: "pot g' = pot g + ?c" by simp
  have flag: "isAllIn ?p' \<longleftrightarrow> stack ?p - ?c = 0"
    using can by (simp add: canAct_def)
  have "map isAllIn (players g') = map isAllIn ?ps4"
    using shape by (auto simp: map_update_first_same o_def)
  then show "map isAllIn (players g') = (map isAllIn (players g))[?i := (stack ?p - ?c = 0)]"
    using flag by (simp add: map_update)
  have st4: "map stack ?ps4 = (map stack (players g))[?i := stack ?p - ?c]"
    by (simp add: map_update)
  have cong: "map stack (update_first (\<lambda>p. \<not> hasFolded p) (\<lambda>p. p\<lparr>stack := stack p + (pot g + ?c)\<rparr>)
                     (map ?reset ?ps4)) =
        map stack (update_first (\<lambda>q. \<not> hasFolded q) (\<lambda>q. q\<lparr>stack := stack q + (pot g + ?c)\<rparr>)
               ((players g)[?i := ?p\<lparr>stack := stack ?p - ?c\<rparr>]))"
    by (rule update_first_stack_cong) (simp_all add: map_update o_def)
  from shape show "map stack (players g') = (map stack (players g))[?i := stack ?p - ?c]
         \<or> PokerGame.phase g' = FINISHED \<and>
           map stack (players g') =
             map stack (update_first (\<lambda>q. \<not> hasFolded q) (\<lambda>q. q\<lparr>stack := stack q + pot g'\<rparr>)
               ((players g)[?i := ?p\<lparr>stack := stack ?p - ?c\<rparr>]))"
  proof (elim conjE disjE)
    assume "players g' = ?ps4"
    then show ?thesis using st4 by simp
  next
    assume "players g' = map ?reset ?ps4"
    then have "map stack (players g') = map stack ?ps4" by (simp add: o_def)
    then show ?thesis using st4 by simp
  next
    assume "PokerGame.phase g' = FINISHED"
      and "players g' = update_first (\<lambda>p. \<not> hasFolded p) (\<lambda>p. p\<lparr>stack := stack p + (pot g + ?c)\<rparr>)
                     (map ?reset ?ps4)"
    then show ?thesis using cong pot by simp
  qed
qed

subsection \<open>What posting the blinds commits\<close>

lemma startNewHand_blinds:
  assumes len: "length (players g) = 6" and r: "startNewHand hid rnd g = Inr g'"
  shows "smallBlindIndex g' < 6" and "bigBlindIndex g' < 6"
    and "map stack (players g') =
         (map stack (players g))
           [smallBlindIndex g' := stack (players g ! smallBlindIndex g') -
                                  min SMALL_BLIND (stack (players g ! smallBlindIndex g')),
            bigBlindIndex g' :=
              (map stack (players g))
                 [smallBlindIndex g' := stack (players g ! smallBlindIndex g') -
                                        min SMALL_BLIND (stack (players g ! smallBlindIndex g'))]
                 ! bigBlindIndex g' -
              min BIG_BLIND ((map stack (players g))
                 [smallBlindIndex g' := stack (players g ! smallBlindIndex g') -
                                        min SMALL_BLIND (stack (players g ! smallBlindIndex g'))]
                 ! bigBlindIndex g')]"
    and "pot g' = min SMALL_BLIND (stack (players g ! smallBlindIndex g')) +
              min BIG_BLIND ((map stack (players g))
                 [smallBlindIndex g' := stack (players g ! smallBlindIndex g') -
                                        min SMALL_BLIND (stack (players g ! smallBlindIndex g'))]
                 ! bigBlindIndex g')"
    and "\<forall>i<6. isAllIn (players g' ! i) \<longleftrightarrow>
           (i = smallBlindIndex g' \<or> i = bigBlindIndex g') \<and> stack (players g' ! i) = 0"
proof -
  have funded: "\<exists>p\<in>set (players g). stack p \<noteq> 0"
    using startNewHand_broke [OF len, of hid rnd] r by auto
  from startNewHand_funded [OF len funded, of hid rnd] r
  obtain g1 g2 where g2: "postBlinds g1 = Inr g2"
    and ps1: "players g1 = map reset (players g)" and pot1: "pot g1 = 0"
    and strip: "map (\<lambda>p. p\<lparr>holeCards := []\<rparr>) (players g') = map (\<lambda>p. p\<lparr>holeCards := []\<rparr>) (players g2)"
    and g'_eq: "g' = g2\<lparr>deck := deck g', players := players g', phase := PREFLOP,
                   activePlayerIndex := activePlayerIndex g', actionLog := actionLog g'\<rparr>"
    and idx2: "smallBlindIndex g2 < 6" "bigBlindIndex g2 < 6"
    by auto
  note m = strip_eq_maps [OF strip]
  have sbe: "smallBlindIndex g' = smallBlindIndex g2" and bbe: "bigBlindIndex g' = bigBlindIndex g2"
    and pe: "pot g' = pot g2"
    by (subst g'_eq, simp)+
  note idx1 = postBlinds_indices [OF g2]
  from g2 have sb1: "smallBlindIndex g2 = smallBlindIndex g1" and bb1: "bigBlindIndex g2 = bigBlindIndex g1"
    unfolding postBlinds_Inr [OF idx1] by auto
  let ?sb = "smallBlindIndex g'" and ?bb = "bigBlindIndex g'"
  from idx2 sbe bbe show sb: "?sb < 6" and bb: "?bb < 6" by simp_all
  let ?S = "map stack (players g)"
  let ?S1 = "?S[?sb := stack (players g ! ?sb) - min SMALL_BLIND (stack (players g ! ?sb))]"
  let ?sb' = "snd (bet SMALL_BLIND (players g1 ! ?sb))"
  let ?ps1 = "(players g1)[?sb := ?sb']"
  let ?bb' = "snd (bet BIG_BLIND (?ps1 ! ?bb))"
  from g2 have ps2: "players g2 = ?ps1[?bb := ?bb']"
    and pot2: "pot g2 = pot g1 + min SMALL_BLIND (stack (players g1 ! ?sb)) +
                 min BIG_BLIND (stack (?ps1 ! ?bb))"
    unfolding postBlinds_Inr [OF idx1] sbe bbe sb1 bb1 by auto
  have s1: "stack (players g1 ! ?sb) = stack (players g ! ?sb)"
    using sb len by (simp add: ps1)
  have S1: "map stack ?ps1 = ?S1"
    using sb len by (simp add: map_update ps1 o_def)
  have b1: "stack (?ps1 ! ?bb) = ?S1 ! ?bb"
    using arg_cong [OF S1, of "\<lambda>xs. xs ! ?bb"] bb len by (simp add: ps1)
  have "map stack (players g2) = (map stack ?ps1)[?bb := stack (?ps1 ! ?bb) - min BIG_BLIND (stack (?ps1 ! ?bb))]"
    unfolding ps2 by (simp add: map_update)
  then show "map stack (players g') = ?S1[?bb := ?S1 ! ?bb - min BIG_BLIND (?S1 ! ?bb)]"
    unfolding m(1) S1 b1 .
  show "pot g' = min SMALL_BLIND (stack (players g ! ?sb)) + min BIG_BLIND (?S1 ! ?bb)"
    unfolding pe pot2 pot1 s1 b1 by simp
  have len2: "length (players g2) = 6" and len': "length (players g') = 6"
    using len ps2 ps1 m(1) by (simp_all, metis length_map length_list_update)
  have flags2: "isAllIn (players g2 ! i) \<longleftrightarrow> (i = ?sb \<or> i = ?bb) \<and> stack (players g2 ! i) = 0"
    if i: "i < 6" for i
    using i sb bb len unfolding ps2
    by (auto simp: ps1 nth_list_update reset_def SMALL_BLIND_def BIG_BLIND_def)
  show "\<forall>i<6. isAllIn (players g' ! i) \<longleftrightarrow> (i = ?sb \<or> i = ?bb) \<and> stack (players g' ! i) = 0"
  proof (intro allI impI)
    fix i :: nat assume i: "i < 6"
    from i len2 len' have "stack (players g' ! i) = stack (players g2 ! i)"
      "isAllIn (players g' ! i) = isAllIn (players g2 ! i)"
      using arg_cong [OF m(1), of "\<lambda>xs. xs ! i"] arg_cong [OF m(5), of "\<lambda>xs. xs ! i"] by simp_all
    with flags2 [OF i] show "isAllIn (players g' ! i) \<longleftrightarrow> (i = ?sb \<or> i = ?bb) \<and> stack (players g' ! i) = 0"
      by simp
  qed
qed

subsection \<open>The scenarios of the stack claims\<close>

lemma seated_short_30_start:
  "reachable seated_short_30"
  "setPlayerStacks [1000, 1000, 1000, 1000, 30, 1000] (PokerGame_new (\<lambda>i. 0)) = Inr seated_short_30"
  "startNewHand [] (\<lambda>i. 0) seated_short_30 = Inr table_short_30"
proof -
  have "\<not> isl (setPlayerStacks [1000, 1000, 1000, 1000, 30, 1000] (PokerGame_new (\<lambda>i. 0)))"
    by code_simp
  from sum_collapse_Inr [OF this]
  show s: "setPlayerStacks [1000, 1000, 1000, 1000, 30, 1000] (PokerGame_new (\<lambda>i. 0)) = Inr seated_short_30"
    by (simp add: seated_short_30_def)
  from reachable_stacks [OF reachable_new s] show "reachable seated_short_30" .
  have "\<not> isl (new_table [1000, 1000, 1000, 1000, 30, 1000])" by code_simp
  then have "new_table [1000, 1000, 1000, 1000, 30, 1000] = Inr table_short_30"
    unfolding table_short_30_def by (rule sum_collapse_Inr)
  from this [unfolded new_table_def s]
  show "startNewHand [] (\<lambda>i. 0) seated_short_30 = Inr table_short_30"
    by (simp only: bindE_Inr)
qed

lemma table_short_30_call:
  "activePlayerIndex table_short_30 = 4"
  "smallBlindIndex table_short_30 = 2"
  "bigBlindIndex table_short_30 = 3"
  "map stack (players seated_short_30) = [1000, 1000, 1000, 1000, 30, 1000]"
  "map stack (players table_short_30) = [1000, 1000, 980, 960, 30, 1000]"
  "map Player.currentBet (players table_short_30) = [0, 0, 20, 40, 0, 0]"
  "map isAllIn (players table_short_30) = [False, False, False, False, False, False]"
  "PokerGame.currentBet table_short_30 = 40"
  "pot table_short_30 = 60"
  "PokerGame.phase table_short_30 = PREFLOP"
  "\<not> isl (processAction CALL None table_short_30)"
  "fst (projr (processAction CALL None table_short_30))"
  "PokerGame.phase (snd (projr (processAction CALL None table_short_30))) = PREFLOP"
proof -
  have "(activePlayerIndex table_short_30, smallBlindIndex table_short_30, bigBlindIndex table_short_30,
         map stack (players seated_short_30),
         map stack (players table_short_30), map Player.currentBet (players table_short_30),
         map isAllIn (players table_short_30), PokerGame.currentBet table_short_30,
         pot table_short_30, PokerGame.phase table_short_30,
         isl (processAction CALL None table_short_30),
         fst (projr (processAction CALL None table_short_30)),
         PokerGame.phase (snd (projr (processAction CALL None table_short_30)))) =
        (4, 2, 3, [1000, 1000, 1000, 1000, 30, 1000], [1000, 1000, 980, 960, 30, 1000],
         [0, 0, 20, 40, 0, 0],
         [False, False, False, False, False, False], 40, 60, PREFLOP, False, True, PREFLOP)"
    by code_simp
  then show "activePlayerIndex table_short_30 = 4"
    "smallBlindIndex table_short_30 = 2"
    "bigBlindIndex table_short_30 = 3"
    "map stack (players seated_short_30) = [1000, 1000, 1000, 1000, 30, 1000]"
    "map stack (players table_short_30) = [1000, 1000, 980, 960, 30, 1000]"
    "map Player.currentBet (players table_short_30) = [0, 0, 20, 40, 0, 0]"
    "map isAllIn (players table_short_30) = [False, False, False, False, False, False]"
    "PokerGame.currentBet table_short_30 = 40"
    "pot table_short_30 = 60"
    "PokerGame.phase table_short_30 = PREFLOP"
    "\<not> isl (processAction CALL None table_short_30)"
    "fst (projr (processAction CALL None table_short_30))"
    "PokerGame.phase (snd (projr (processAction CALL None table_short_30))) = PREFLOP"
    by simp_all
qed

lemma table_short_30_call_Inr:
  "processAction CALL None table_short_30 =
   Inr (True, snd (projr (processAction CALL None table_short_30)))"
  using sum_collapse_Inr [OF table_short_30_call(11)] table_short_30_call(12)
  by (metis prod.collapse)

lemma table_negative_river_in_hand:
  "in_hand [1000, 1000, - 50, 1000, 1000, 1000] table_negative_river"
proof -
  have "\<not> isl (new_table [1000, 1000, - 50, 1000, 1000, 1000])" by code_simp
  from new_table_in_hand [OF sum_collapse_Inr [OF this]]
  have t: "in_hand [1000, 1000, - 50, 1000, 1000, 1000] table_negative"
    by (simp add: table_negative_def)
  have "live_play folds_then_checks table_negative" by code_simp
  from play_in_hand [OF t this] show ?thesis
    by (auto simp: table_negative_river_def)
qed

lemma table_negative_river_check:
  "map stack (players table_negative_river) = [1000, 1000, 0, 960, 1000, 1000]"
  "\<not> isl (processAction CHECK None table_negative_river)"
  "fst (projr (processAction CHECK None table_negative_river))"
  "map stack (players (snd (projr (processAction CHECK None table_negative_river)))) =
     [1000, 1000, - 10, 960, 1000, 1000]"
proof -
  have "(map stack (players table_negative_river),
         isl (processAction CHECK None table_negative_river),
         fst (projr (processAction CHECK None table_negative_river)),
         map stack (players (snd (projr (processAction CHECK None table_negative_river))))) =
        ([1000, 1000, 0, 960, 1000, 1000], False, True,
         [1000, 1000, - 10, 960, 1000, 1000])"
    by code_simp
  then show "map stack (players table_negative_river) = [1000, 1000, 0, 960, 1000, 1000]"
    "\<not> isl (processAction CHECK None table_negative_river)"
    "fst (projr (processAction CHECK None table_negative_river))"
    "map stack (players (snd (projr (processAction CHECK None table_negative_river)))) =
       [1000, 1000, - 10, 960, 1000, 1000]"
    by simp_all
qed

lemma table_negative_river_check_Inr:
  "processAction CHECK None table_negative_river =
   Inr (True, snd (projr (processAction CHECK None table_negative_river)))"
  using sum_collapse_Inr [OF table_negative_river_check(2)] table_negative_river_check(3)
  by (metis prod.collapse)

lemma table_folded_check:
  "getValidActions table_folded = []"
  "map stack (players table_folded) = [1000, 1000, 980, 1020, 1000, 1000]"
  "\<not> isl (processAction CHECK None table_folded)"
  "fst (projr (processAction CHECK None table_folded))"
  "map stack (players (snd (projr (processAction CHECK None table_folded)))) =
     [1000, 1000, 980, 1080, 1000, 1000]"
  "PokerGame.phase (snd (projr (processAction CHECK None table_folded))) = FINISHED"
  "pot (snd (projr (processAction CHECK None table_folded))) = 60"
proof -
  have "(getValidActions table_folded, map stack (players table_folded),
         isl (processAction CHECK None table_folded),
         fst (projr (processAction CHECK None table_folded)),
         map stack (players (snd (projr (processAction CHECK None table_folded)))),
         PokerGame.phase (snd (projr (processAction CHECK None table_folded))),
         pot (snd (projr (processAction CHECK None table_folded)))) =
        ([], [1000, 1000, 980, 1020, 1000, 1000], False, True,
         [1000, 1000, 980, 1080, 1000, 1000], FINISHED, 60)"
    by code_simp
  then show "getValidActions table_folded = []"
    "map stack (players table_folded) = [1000, 1000, 980, 1020, 1000, 1000]"
    "\<not> isl (processAction CHECK None table_folded)"
    "fst (projr (processAction CHECK None table_folded))"
    "map stack (players (snd (projr (processAction CHECK None table_folded)))) =
       [1000, 1000, 980, 1080, 1000, 1000]"
    "PokerGame.phase (snd (projr (processAction CHECK None table_folded))) = FINISHED"
    "pot (snd (projr (processAction CHECK None table_folded))) = 60"
    by simp_all
qed

lemma table_folded_check_Inr:
  "processAction CHECK None table_folded =
   Inr (True, snd (projr (processAction CHECK None table_folded)))"
  using sum_collapse_Inr [OF table_folded_check(3)] table_folded_check(4)
  by (metis prod.collapse)

lemma table_short_30_seat:
  "stack (players table_short_30 ! activePlayerIndex table_short_30) = 30"
  "Player.currentBet (players table_short_30 ! activePlayerIndex table_short_30) = 0"
  "isAllIn (players table_short_30 ! activePlayerIndex table_short_30) = False"
proof -
  have "(stack (players table_short_30 ! activePlayerIndex table_short_30),
         Player.currentBet (players table_short_30 ! activePlayerIndex table_short_30),
         isAllIn (players table_short_30 ! activePlayerIndex table_short_30)) = (30, 0, False)"
    by code_simp
  then show "stack (players table_short_30 ! activePlayerIndex table_short_30) = 30"
    "Player.currentBet (players table_short_30 ! activePlayerIndex table_short_30) = 0"
    "isAllIn (players table_short_30 ! activePlayerIndex table_short_30) = False"
    by simp_all
qed

text \<open>
  C9, as amended. The seat methods: bet commits min(amount, stack), leaves a stack that
  was not negative not negative, and sets the all-in flag exactly when the stack has
  reached 0 (a flag already set stays); call commits min(amountToCall, stack) and allIn
  the whole stack, both through bet. The engine: setPlayerStacks stores the six stacks
  it is given, whatever their sign. startNewHand takes min(20, stack) from the small
  blind and then min(40, stack) from the big blind, the pot is the sum of the two, and
  the seats flagged all-in are exactly the blind seats left with stack 0. An accepted
  CALL, BET, RAISE or ALL_IN asks for amountToCall, the amount, amount - currentStreetBet
  or the stack, moves the smaller of that and the stack from the acting seat to the pot,
  and flags the seat all-in exactly when that leaves it stack 0; the other stacks are
  unchanged, except that an action which finishes the hand then adds the pot to the
  first seat that has not folded. Provided no stack is negative when the hand starts,
  every hand starts in, and every submitted action preserves, a state where no stack
  and no street bet is negative, no street bet exceeds the seat's total bet, currentBet
  is not negative and the pot is the sum of the seats' total bets; so in a hand started
  from stacks that are not negative no stack and no pot is ever negative, and while the
  hand runs a seat flagged all-in has stack 0.
\<close>

theorem stacks_never_negative:
  "(fst (bet a p) = min a (stack p) \<and>
    stack (snd (bet a p)) = stack p - min a (stack p) \<and>
    (0 \<le> stack p \<longrightarrow> 0 \<le> stack (snd (bet a p))) \<and>
    (isAllIn (snd (bet a p)) \<longleftrightarrow> isAllIn p \<or> stack (snd (bet a p)) = 0) \<and>
    call a p = bet (min a (stack p)) p \<and> fst (call a p) = min a (stack p) \<and>
    (0 \<le> stack p \<longrightarrow> 0 \<le> stack (snd (call a p))) \<and>
    allIn p = (stack p, snd (bet (stack p) p)) \<and>
    stack (snd (allIn p)) = 0 \<and> isAllIn (snd (allIn p))) \<and>
   (reachable g0 \<and> setPlayerStacks st0 g0 = Inr g1 \<longrightarrow> map stack (players g1) = st0) \<and>
   (reachable g1 \<and> startNewHand hid rnd g1 = Inr g \<longrightarrow>
      (let sb = smallBlindIndex g; bb = bigBlindIndex g; s = map stack (players g1);
           s1 = s[sb := s ! sb - min SMALL_BLIND (s ! sb)]
       in sb < 6 \<and> bb < 6 \<and>
          map stack (players g) = s1[bb := s1 ! bb - min BIG_BLIND (s1 ! bb)] \<and>
          pot g = min SMALL_BLIND (s ! sb) + min BIG_BLIND (s1 ! bb) \<and>
          (\<forall>i<6. isAllIn (players g ! i) \<longleftrightarrow>
                   (i = sb \<or> i = bb) \<and> stack (players g ! i) = 0)) \<and>
      ((\<forall>q\<in>set (players g1). 0 \<le> stack q) \<longrightarrow> nonneg_inv g)) \<and>
   (processAction act amt g = Inr (True, g') \<and>
    (act = CALL \<and> x = PokerGame.currentBet g - Player.currentBet (players g ! activePlayerIndex g)
     \<or> act = BET \<and> amt = Some x
     \<or> act = RAISE \<and> (\<exists>r. amt = Some r \<and> x = r - Player.currentBet (players g ! activePlayerIndex g))
     \<or> act = ALL_IN \<and> x = stack (players g ! activePlayerIndex g)) \<longrightarrow>
      pot g' = pot g + min x (stack (players g ! activePlayerIndex g)) \<and>
      map isAllIn (players g') =
        (map isAllIn (players g))[activePlayerIndex g :=
           (stack (players g ! activePlayerIndex g) - min x (stack (players g ! activePlayerIndex g)) = 0)] \<and>
      (map stack (players g') =
         (map stack (players g))[activePlayerIndex g :=
            stack (players g ! activePlayerIndex g) - min x (stack (players g ! activePlayerIndex g))]
       \<or> PokerGame.phase g' = FINISHED \<and>
         map stack (players g') =
           map stack (update_first (\<lambda>q. \<not> hasFolded q) (\<lambda>q. q\<lparr>stack := stack q + pot g'\<rparr>)
             ((players g)[activePlayerIndex g := (players g ! activePlayerIndex g)
                \<lparr>stack := stack (players g ! activePlayerIndex g) -
                           min x (stack (players g ! activePlayerIndex g))\<rparr>])))) \<and>
   (nonneg_inv g \<and> processAction act amt g = Inr (ok, g') \<longrightarrow> nonneg_inv g') \<and>
   (in_hand st h \<and> (\<forall>s\<in>set st. 0 \<le> s) \<longrightarrow>
      (\<forall>q\<in>set (players h). 0 \<le> stack q) \<and> 0 \<le> pot h \<and>
      (PokerGame.phase h \<noteq> FINISHED \<longrightarrow> (\<forall>q\<in>set (players h). isAllIn q \<longrightarrow> stack q = 0)))"
proof -
  have seat: "fst (bet a p) = min a (stack p) \<and>
    stack (snd (bet a p)) = stack p - min a (stack p) \<and>
    (0 \<le> stack p \<longrightarrow> 0 \<le> stack (snd (bet a p))) \<and>
    (isAllIn (snd (bet a p)) \<longleftrightarrow> isAllIn p \<or> stack (snd (bet a p)) = 0) \<and>
    call a p = bet (min a (stack p)) p \<and> fst (call a p) = min a (stack p) \<and>
    (0 \<le> stack p \<longrightarrow> 0 \<le> stack (snd (call a p))) \<and>
    allIn p = (stack p, snd (bet (stack p) p)) \<and>
    stack (snd (allIn p)) = 0 \<and> isAllIn (snd (allIn p))"
    by (simp add: call_eq allIn_eq)
  have stacks: "reachable g0 \<and> setPlayerStacks st0 g0 = Inr g1 \<longrightarrow> map stack (players g1) = st0"
    using setPlayerStacks_stacks(1) [OF reachable_length] by blast
  have start: "reachable g1 \<and> startNewHand hid rnd g1 = Inr g \<longrightarrow>
      (let sb = smallBlindIndex g; bb = bigBlindIndex g; s = map stack (players g1);
           s1 = s[sb := s ! sb - min SMALL_BLIND (s ! sb)]
       in sb < 6 \<and> bb < 6 \<and>
          map stack (players g) = s1[bb := s1 ! bb - min BIG_BLIND (s1 ! bb)] \<and>
          pot g = min SMALL_BLIND (s ! sb) + min BIG_BLIND (s1 ! bb) \<and>
          (\<forall>i<6. isAllIn (players g ! i) \<longleftrightarrow>
                   (i = sb \<or> i = bb) \<and> stack (players g ! i) = 0)) \<and>
      ((\<forall>q\<in>set (players g1). 0 \<le> stack q) \<longrightarrow> nonneg_inv g)"
  proof (intro impI, elim conjE)
    assume re: "reachable g1" and r: "startNewHand hid rnd g1 = Inr g"
    note len = reachable_length [OF re]
    note b = startNewHand_blinds [OF len r]
    have sb: "map stack (players g1) ! smallBlindIndex g = stack (players g1 ! smallBlindIndex g)"
      using b(1) len by simp
    have "let sb = smallBlindIndex g; bb = bigBlindIndex g; s = map stack (players g1);
           s1 = s[sb := s ! sb - min SMALL_BLIND (s ! sb)]
       in sb < 6 \<and> bb < 6 \<and>
          map stack (players g) = s1[bb := s1 ! bb - min BIG_BLIND (s1 ! bb)] \<and>
          pot g = min SMALL_BLIND (s ! sb) + min BIG_BLIND (s1 ! bb) \<and>
          (\<forall>i<6. isAllIn (players g ! i) \<longleftrightarrow>
                   (i = sb \<or> i = bb) \<and> stack (players g ! i) = 0)"
      unfolding Let_def sb using b by blast
    moreover have "(\<forall>q\<in>set (players g1). 0 \<le> stack q) \<longrightarrow> nonneg_inv g"
      using startNewHand_Inr_facts(6) [OF len r] by blast
    ultimately show "(let sb = smallBlindIndex g; bb = bigBlindIndex g; s = map stack (players g1);
           s1 = s[sb := s ! sb - min SMALL_BLIND (s ! sb)]
       in sb < 6 \<and> bb < 6 \<and>
          map stack (players g) = s1[bb := s1 ! bb - min BIG_BLIND (s1 ! bb)] \<and>
          pot g = min SMALL_BLIND (s ! sb) + min BIG_BLIND (s1 ! bb) \<and>
          (\<forall>i<6. isAllIn (players g ! i) \<longleftrightarrow>
                   (i = sb \<or> i = bb) \<and> stack (players g ! i) = 0)) \<and>
      ((\<forall>q\<in>set (players g1). 0 \<le> stack q) \<longrightarrow> nonneg_inv g)"
      by (rule conjI)
  qed
  have commits: "processAction act amt g = Inr (True, g') \<and>
    (act = CALL \<and> x = PokerGame.currentBet g - Player.currentBet (players g ! activePlayerIndex g)
     \<or> act = BET \<and> amt = Some x
     \<or> act = RAISE \<and> (\<exists>r. amt = Some r \<and> x = r - Player.currentBet (players g ! activePlayerIndex g))
     \<or> act = ALL_IN \<and> x = stack (players g ! activePlayerIndex g)) \<longrightarrow>
      pot g' = pot g + min x (stack (players g ! activePlayerIndex g)) \<and>
      map isAllIn (players g') =
        (map isAllIn (players g))[activePlayerIndex g :=
           (stack (players g ! activePlayerIndex g) - min x (stack (players g ! activePlayerIndex g)) = 0)] \<and>
      (map stack (players g') =
         (map stack (players g))[activePlayerIndex g :=
            stack (players g ! activePlayerIndex g) - min x (stack (players g ! activePlayerIndex g))]
       \<or> PokerGame.phase g' = FINISHED \<and>
         map stack (players g') =
           map stack (update_first (\<lambda>q. \<not> hasFolded q) (\<lambda>q. q\<lparr>stack := stack q + pot g'\<rparr>)
             ((players g)[activePlayerIndex g := (players g ! activePlayerIndex g)
                \<lparr>stack := stack (players g ! activePlayerIndex g) -
                           min x (stack (players g ! activePlayerIndex g))\<rparr>])))"
  proof (intro impI, elim conjE)
    assume r: "processAction act amt g = Inr (True, g')"
      and kind: "act = CALL \<and> x = PokerGame.currentBet g - Player.currentBet (players g ! activePlayerIndex g)
     \<or> act = BET \<and> amt = Some x
     \<or> act = RAISE \<and> (\<exists>r. amt = Some r \<and> x = r - Player.currentBet (players g ! activePlayerIndex g))
     \<or> act = ALL_IN \<and> x = stack (players g ! activePlayerIndex g)"
    from processAction_commits [OF r kind]
    show "pot g' = pot g + min x (stack (players g ! activePlayerIndex g)) \<and>
      map isAllIn (players g') =
        (map isAllIn (players g))[activePlayerIndex g :=
           (stack (players g ! activePlayerIndex g) - min x (stack (players g ! activePlayerIndex g)) = 0)] \<and>
      (map stack (players g') =
         (map stack (players g))[activePlayerIndex g :=
            stack (players g ! activePlayerIndex g) - min x (stack (players g ! activePlayerIndex g))]
       \<or> PokerGame.phase g' = FINISHED \<and>
         map stack (players g') =
           map stack (update_first (\<lambda>q. \<not> hasFolded q) (\<lambda>q. q\<lparr>stack := stack q + pot g'\<rparr>)
             ((players g)[activePlayerIndex g := (players g ! activePlayerIndex g)
                \<lparr>stack := stack (players g ! activePlayerIndex g) -
                           min x (stack (players g ! activePlayerIndex g))\<rparr>])))"
      by (intro conjI)
  qed
  have step: "nonneg_inv g \<and> processAction act amt g = Inr (ok, g') \<longrightarrow> nonneg_inv g'"
    using processAction_nonneg_inv by blast
  have hand: "in_hand st h \<and> (\<forall>s\<in>set st. 0 \<le> s) \<longrightarrow>
      (\<forall>q\<in>set (players h). 0 \<le> stack q) \<and> 0 \<le> pot h \<and>
      (PokerGame.phase h \<noteq> FINISHED \<longrightarrow> (\<forall>q\<in>set (players h). isAllIn q \<longrightarrow> stack q = 0))"
  proof (intro impI, elim conjE)
    assume h: "in_hand st h" and nn: "\<forall>s\<in>set st. 0 \<le> s"
    from in_hand_nonneg [OF h nn] have n: "nonneg_inv h" .
    then have q: "\<forall>q\<in>set (players h). 0 \<le> stack q \<and> 0 \<le> Player.currentBet q \<and>
                  Player.currentBet q \<le> totalBetThisHand q"
      and pt: "pot h = sum_list (map totalBetThisHand (players h))"
      by (simp_all add: nonneg_inv_def)
    have "0 \<le> sum_list (map totalBetThisHand (players h))"
      using q by (intro sum_list_nonneg) auto
    with q pt in_hand_allin [OF h]
    show "(\<forall>q\<in>set (players h). 0 \<le> stack q) \<and> 0 \<le> pot h \<and>
      (PokerGame.phase h \<noteq> FINISHED \<longrightarrow> (\<forall>q\<in>set (players h). isAllIn q \<longrightarrow> stack q = 0))"
      by auto
  qed
  show ?thesis
    apply (rule conjI, rule seat)
    apply (rule conjI, rule stacks)
    apply (rule conjI, rule start)
    apply (rule conjI, rule commits)
    apply (rule conjI, rule step)
    apply (rule hand)
    done
qed

theorem stacks_never_negative_witness:
  "setPlayerStacks [1000, 1000, 1000, 1000, 30, 1000] (PokerGame_new (\<lambda>i. 0)) = Inr seated_short_30 \<and>
   map stack (players seated_short_30) = [1000, 1000, 1000, 1000, 30, 1000] \<and>
   startNewHand [] (\<lambda>i. 0) seated_short_30 = Inr table_short_30 \<and>
   map stack (players table_short_30) = [1000, 1000, 980, 960, 30, 1000] \<and>
   pot table_short_30 = 60 \<and>
   processAction CALL None table_short_30 =
     Inr (True, snd (projr (processAction CALL None table_short_30))) \<and>
   fst (call 40 (players table_short_30 ! activePlayerIndex table_short_30)) = 30 \<and>
   pot (snd (projr (processAction CALL None table_short_30))) = 90 \<and>
   map stack (players (snd (projr (processAction CALL None table_short_30)))) =
     [1000, 1000, 980, 960, 0, 1000] \<and>
   map isAllIn (players (snd (projr (processAction CALL None table_short_30)))) =
     [False, False, False, False, True, False] \<and>
   in_hand [1000, 1000, 1000, 1000, 30, 1000] (snd (projr (processAction CALL None table_short_30))) \<and>
   list_all (\<lambda>q. 0 \<le> stack q) (players (snd (projr (processAction CALL None table_short_30)))) \<and>
   nonneg_inv (snd (projr (processAction CALL None table_short_30)))"
proof -
  let ?st = "[1000, 1000, 1000, 1000, 30, 1000] :: int list"
  let ?T = "snd (projr (processAction CALL None table_short_30))"
  note th = stacks_never_negative [where a = 40
      and p = "players table_short_30 ! activePlayerIndex table_short_30"
      and ?g0.0 = "PokerGame_new (\<lambda>i. 0)" and ?st0.0 = ?st and ?g1.0 = seated_short_30
      and hid = "[]" and rnd = "\<lambda>i. 0" and g = table_short_30
      and act = CALL and amt = None and g' = ?T and x = 40 and ok = True
      and st = ?st and h = ?T]
  note seat = th [THEN conjunct1]
  note stacks = th [THEN conjunct2, THEN conjunct1]
  note start = th [THEN conjunct2, THEN conjunct2, THEN conjunct1]
  note commits = th [THEN conjunct2, THEN conjunct2, THEN conjunct2, THEN conjunct1]
  note step = th [THEN conjunct2, THEN conjunct2, THEN conjunct2, THEN conjunct2, THEN conjunct1]
  note hand = th [THEN conjunct2, THEN conjunct2, THEN conjunct2, THEN conjunct2, THEN conjunct2]
  note s = seated_short_30_start
  note c = table_short_30_call
  note r = table_short_30_call_Inr
  note seat4 = table_short_30_seat [unfolded table_short_30_call(1)]
  from stacks reachable_new s(2)
  have w1: "map stack (players seated_short_30) = ?st" by blast
  from start s(1,3) have "let sb = smallBlindIndex table_short_30; bb = bigBlindIndex table_short_30;
           s = map stack (players seated_short_30);
           s1 = s[sb := s ! sb - min SMALL_BLIND (s ! sb)]
       in sb < 6 \<and> bb < 6 \<and>
          map stack (players table_short_30) = s1[bb := s1 ! bb - min BIG_BLIND (s1 ! bb)] \<and>
          pot table_short_30 = min SMALL_BLIND (s ! sb) + min BIG_BLIND (s1 ! bb) \<and>
          (\<forall>i<6. isAllIn (players table_short_30 ! i) \<longleftrightarrow>
                   (i = sb \<or> i = bb) \<and> stack (players table_short_30 ! i) = 0)"
    by blast
  then have w2: "map stack (players table_short_30) = [1000, 1000, 980, 960, 30, 1000]"
    and w3: "pot table_short_30 = 60"
    unfolding Let_def c(2,3) w1 by (simp_all add: SMALL_BLIND_def BIG_BLIND_def)
  have x: "(40 :: int) = PokerGame.currentBet table_short_30 -
              Player.currentBet (players table_short_30 ! activePlayerIndex table_short_30)"
    by (simp add: c(8) table_short_30_seat(2))
  from commits r x
  have cm: "pot ?T = pot table_short_30 + min 40 (stack (players table_short_30 ! activePlayerIndex table_short_30)) \<and>
      map isAllIn (players ?T) =
        (map isAllIn (players table_short_30))[activePlayerIndex table_short_30 :=
           (stack (players table_short_30 ! activePlayerIndex table_short_30) -
              min 40 (stack (players table_short_30 ! activePlayerIndex table_short_30)) = 0)] \<and>
      (map stack (players ?T) =
         (map stack (players table_short_30))[activePlayerIndex table_short_30 :=
            stack (players table_short_30 ! activePlayerIndex table_short_30) -
              min 40 (stack (players table_short_30 ! activePlayerIndex table_short_30))]
       \<or> PokerGame.phase ?T = FINISHED \<and>
         map stack (players ?T) =
           map stack (update_first (\<lambda>q. \<not> hasFolded q) (\<lambda>q. q\<lparr>stack := stack q + pot ?T\<rparr>)
             ((players table_short_30)[activePlayerIndex table_short_30 :=
                (players table_short_30 ! activePlayerIndex table_short_30)
                \<lparr>stack := stack (players table_short_30 ! activePlayerIndex table_short_30) -
                           min 40 (stack (players table_short_30 ! activePlayerIndex table_short_30))\<rparr>])))"
    by blast
  from cm have w4: "pot ?T = 90"
    by (simp add: c(9) table_short_30_seat(1))
  from cm have w5: "map isAllIn (players ?T) = [False, False, False, False, True, False]"
    by (simp add: c(1,7) seat4)
  from cm c(13) have "map stack (players ?T) =
         (map stack (players table_short_30))[activePlayerIndex table_short_30 :=
            stack (players table_short_30 ! activePlayerIndex table_short_30) -
              min 40 (stack (players table_short_30 ! activePlayerIndex table_short_30))]"
    by simp
  then have w6: "map stack (players ?T) = [1000, 1000, 980, 960, 0, 1000]"
    by (simp add: c(1,5) seat4)
  have ih: "in_hand ?st ?T"
    by (rule in_hand_action [OF table_short_30_in_hand _ r]) (simp add: c(10))
  have nn: "\<forall>s\<in>set ?st. 0 \<le> s" by simp
  from hand ih nn have "\<forall>q\<in>set (players ?T). 0 \<le> stack q" by blast
  then have w7: "list_all (\<lambda>q. 0 \<le> stack q) (players ?T)" by (simp add: list_all_iff)
  have "nonneg_inv table_short_30" by (rule in_hand_nonneg [OF table_short_30_in_hand nn])
  with step r have w8: "nonneg_inv ?T" by blast
  from seat have w9: "fst (call 40 (players table_short_30 ! activePlayerIndex table_short_30)) = 30"
    by (simp add: table_short_30_seat(1))
  from s(2,3) w1 w2 w3 r w4 w5 w6 w7 w8 w9 ih show ?thesis by simp
qed

theorem stacks_never_negative_counterexample:
  "in_hand [1000, 1000, - 50, 1000, 1000, 1000] table_negative_river \<and>
   map stack (players table_negative_river) = [1000, 1000, 0, 960, 1000, 1000] \<and>
   list_all (\<lambda>q. 0 \<le> stack q) (players table_negative_river) \<and>
   processAction CHECK None table_negative_river =
     Inr (True, snd (projr (processAction CHECK None table_negative_river))) \<and>
   map stack (players (snd (projr (processAction CHECK None table_negative_river)))) =
     [1000, 1000, - 10, 960, 1000, 1000] \<and>
   \<not> list_all (\<lambda>q. 0 \<le> stack q) (players (snd (projr (processAction CHECK None table_negative_river))))"
proof -
  note c = table_negative_river_check
  have pre: "list_all (\<lambda>q. 0 \<le> stack q) (players table_negative_river)"
    using arg_cong [OF c(1), of "list_all (\<lambda>s. 0 \<le> s)"] by (simp add: list_all_iff)
  have post: "\<not> list_all (\<lambda>q. 0 \<le> stack q)
       (players (snd (projr (processAction CHECK None table_negative_river))))"
    using arg_cong [OF c(4), of "list_all (\<lambda>s. 0 \<le> s)"] by (simp add: list_all_iff)
  from table_negative_river_in_hand c(1,4) pre post table_negative_river_check_Inr
  show ?thesis by simp
qed

lemma table_folded_seat:
  "activePlayerIndex table_folded < length (players table_folded)"
  "canAct (players table_folded ! activePlayerIndex table_folded)"
  "PokerGame.currentBet table_folded \<le>
     Player.currentBet (players table_folded ! activePlayerIndex table_folded)"
proof -
  have "(activePlayerIndex table_folded < length (players table_folded),
         canAct (players table_folded ! activePlayerIndex table_folded),
         PokerGame.currentBet table_folded \<le>
           Player.currentBet (players table_folded ! activePlayerIndex table_folded)) =
        (True, True, True)"
    by code_simp
  then show "activePlayerIndex table_folded < length (players table_folded)"
    "canAct (players table_folded ! activePlayerIndex table_folded)"
    "PokerGame.currentBet table_folded \<le>
       Player.currentBet (players table_folded ! activePlayerIndex table_folded)"
    by simp_all
qed

text \<open>
  C2: the failing input. Six seats of 1000; the five seats that act first fold, which
  finishes the hand and pays the pot of 60 to seat 3. getValidActions then returns the
  empty list, so CHECK is not a valid action; processAction(CHECK) is accepted all the
  same, the hand is completed a second time and the pot of 60 is paid to seat 3 again:
  the six stacks now sum to 6060, from 6000. In general: in every FINISHED engine
  getValidActions returns the empty list, and the CHECK of an active seat that can act and
  has nothing to call is never answered with false.
\<close>

theorem finished_hand_accepts_check:
  "(PokerGame.phase g = FINISHED \<and> activePlayerIndex g < length (players g) \<and>
    canAct (players g ! activePlayerIndex g) \<and>
    PokerGame.currentBet g \<le> Player.currentBet (players g ! activePlayerIndex g) \<longrightarrow>
      getValidActions g = [] \<and> (\<forall>g'. processAction CHECK None g \<noteq> Inr (False, g'))) \<and>
   in_hand [1000, 1000, 1000, 1000, 1000, 1000] table_folded \<and>
   reachable table_folded \<and>
   PokerGame.phase table_folded = FINISHED \<and>
   getValidActions table_folded = [] \<and>
   CHECK \<notin> set (getValidActions table_folded) \<and>
   map stack (players table_folded) = [1000, 1000, 980, 1020, 1000, 1000] \<and>
   sum_list (map stack (players table_folded)) = 6000 \<and>
   processAction CHECK None table_folded =
     Inr (True, snd (projr (processAction CHECK None table_folded))) \<and>
   PokerGame.phase (snd (projr (processAction CHECK None table_folded))) = FINISHED \<and>
   pot (snd (projr (processAction CHECK None table_folded))) = 60 \<and>
   map stack (players (snd (projr (processAction CHECK None table_folded)))) =
     [1000, 1000, 980, 1080, 1000, 1000] \<and>
   sum_list (map stack (players (snd (projr (processAction CHECK None table_folded))))) = 6060"
proof -
  have general: "PokerGame.phase g = FINISHED \<and> activePlayerIndex g < length (players g) \<and>
    canAct (players g ! activePlayerIndex g) \<and>
    PokerGame.currentBet g \<le> Player.currentBet (players g ! activePlayerIndex g) \<longrightarrow>
      getValidActions g = [] \<and> (\<forall>g'. processAction CHECK None g \<noteq> Inr (False, g'))"
  proof (intro impI, elim conjE)
    let ?p = "players g ! activePlayerIndex g"
    assume fin: "PokerGame.phase g = FINISHED" and idx: "activePlayerIndex g < length (players g)"
      and can: "canAct ?p" and owed: "PokerGame.currentBet g \<le> Player.currentBet ?p"
    from fin have l: "getValidActions g = []"
      by (simp add: getValidActions_def Let_def)
    have eq: "processAction CHECK None g =
        processAction_accept (g\<lparr>isFirstAction := False\<rparr>) (check ?p) 0 (name ?p @ '' checks'') ''x''"
      using idx can owed unfolding processAction_def Let_def first_action_flip by simp
    have "processAction CHECK None g \<noteq> Inr (False, g')" for g'
      unfolding eq using processAction_accept_Inr by blast
    with l show "getValidActions g = [] \<and> (\<forall>g'. processAction CHECK None g \<noteq> Inr (False, g'))"
      by blast
  qed
  note c = table_folded_check
  from table_folded_in_hand in_hand_reachable [OF table_folded_in_hand] table_folded_result(1)
    c(1,2,5,6,7) table_folded_check_Inr
  have "in_hand [1000, 1000, 1000, 1000, 1000, 1000] table_folded \<and>
   reachable table_folded \<and>
   PokerGame.phase table_folded = FINISHED \<and>
   getValidActions table_folded = [] \<and>
   CHECK \<notin> set (getValidActions table_folded) \<and>
   map stack (players table_folded) = [1000, 1000, 980, 1020, 1000, 1000] \<and>
   sum_list (map stack (players table_folded)) = 6000 \<and>
   processAction CHECK None table_folded =
     Inr (True, snd (projr (processAction CHECK None table_folded))) \<and>
   PokerGame.phase (snd (projr (processAction CHECK None table_folded))) = FINISHED \<and>
   pot (snd (projr (processAction CHECK None table_folded))) = 60 \<and>
   map stack (players (snd (projr (processAction CHECK None table_folded)))) =
     [1000, 1000, 980, 1080, 1000, 1000] \<and>
   sum_list (map stack (players (snd (projr (processAction CHECK None table_folded))))) = 6060"
    by simp
  with general show ?thesis by (rule conjI)
qed

theorem finished_hand_accepts_check_witness:
  "PokerGame.phase table_folded = FINISHED \<and>
   activePlayerIndex table_folded < length (players table_folded) \<and>
   canAct (players table_folded ! activePlayerIndex table_folded) \<and>
   PokerGame.currentBet table_folded \<le>
     Player.currentBet (players table_folded ! activePlayerIndex table_folded) \<and>
   getValidActions table_folded = [] \<and>
   processAction CHECK None table_folded \<noteq> Inr (False, table_folded)"
  using finished_hand_accepts_check [of table_folded, THEN conjunct1]
    table_folded_result(1) table_folded_seat
  by blast

end
